theory Spec2Isabelle
  imports
    Main
    "HOL-Library.Sublist"
    "HOL-Library.List_Lexorder"
    "HOL-Library.Product_Lexorder"
    "HOL-Library.Multiset"
begin

section \<open>Strings, errors and indexing of the source language\<close>

text \<open>
  A Python \<open>str\<close> is a sequence of Unicode code points, and path segments read from the
  file system may hold any of them, so a string is a list of code points (natural
  numbers), not a list of 8-bit characters. \<open>lit\<close> embeds the ASCII literals of the
  source. Comparison of strings is lexicographic on code points, which is the order of
  lists from \<open>List_Lexorder\<close>.
\<close>

type_synonym codepoint = nat
type_synonym pystr = "codepoint list"

definition lit :: "string \<Rightarrow> pystr" where
  "lit s = map of_char s"

datatype py_error = IndexError | KeyError | ValueError | OSError | UnicodeEncodeError

text \<open>Sequencing of fallible steps: the first exception ends the computation.\<close>

definition bind_err :: "py_error + 'a \<Rightarrow> ('a \<Rightarrow> py_error + 'b) \<Rightarrow> py_error + 'b" where
  "bind_err r f = (case r of Inl e \<Rightarrow> Inl e | Inr x \<Rightarrow> f x)"

text \<open>
  \<open>xs[i]\<close> on a tuple or list: a negative index counts from the end, and an index
  outside \<open>-len .. len - 1\<close> raises \<open>IndexError\<close>.
\<close>

definition getitem :: "'a list \<Rightarrow> int \<Rightarrow> py_error + 'a" where
  "getitem xs i =
     (if 0 \<le> i \<and> i < int (length xs) then Inr (xs ! nat i)
      else if i < 0 \<and> - int (length xs) \<le> i then Inr (xs ! nat (int (length xs) + i))
      else Inl IndexError)"

text \<open>\<open>sub in s\<close> on strings: \<open>sub\<close> occurs as a contiguous piece of \<open>s\<close>.\<close>

fun str_in :: "'a list \<Rightarrow> 'a list \<Rightarrow> bool" where
  "str_in sub [] = (sub = [])"
| "str_in sub (c # cs) = (prefix sub (c # cs) \<or> str_in sub cs)"

text \<open>\<open>sep.join(xs)\<close>.\<close>

fun join :: "pystr \<Rightarrow> pystr list \<Rightarrow> pystr" where
  "join sep [] = []"
| "join sep [x] = x"
| "join sep (x # y # ys) = x @ sep @ join sep (y # ys)"

section \<open>Decimal digits: the class \<open>\d\<close> and \<open>int\<close>\<close>

text \<open>
  On a \<open>str\<close> pattern \<open>\d\<close> matches every character of the Unicode category Nd, and
  \<open>int\<close> reads each such character by its decimal value. The category consists of
  ranges of ten consecutive code points with the values 0 to 9; \<open>nd_starts\<close> lists the
  zero of each range (Unicode 14.0, the table of the interpreter at hand; later versions
  add ranges). The ASCII digits are the first range.
\<close>

definition nd_starts :: "codepoint list" where
  "nd_starts =
    [0x30, 0x660, 0x6F0, 0x7C0, 0x966, 0x9E6, 0xA66, 0xAE6, 0xB66, 0xBE6, 0xC66, 0xCE6,
     0xD66, 0xDE6, 0xE50, 0xED0, 0xF20, 0x1040, 0x1090, 0x17E0, 0x1810, 0x1946, 0x19D0,
     0x1A80, 0x1A90, 0x1B50, 0x1BB0, 0x1C40, 0x1C50, 0xA620, 0xA8D0, 0xA900, 0xA9D0,
     0xA9F0, 0xAA50, 0xABF0, 0xFF10, 0x104A0, 0x10D30, 0x11066, 0x110F0, 0x11136,
     0x111D0, 0x112F0, 0x11450, 0x114D0, 0x11650, 0x116C0, 0x11730, 0x118E0, 0x11950,
     0x11C50, 0x11D50, 0x11DA0, 0x16A60, 0x16AC0, 0x16B50, 0x1D7CE, 0x1D7D8, 0x1D7E2,
     0x1D7EC, 0x1D7F6, 0x1E140, 0x1E2F0, 0x1E950, 0x1FBF0]"

definition decimal :: "codepoint \<Rightarrow> nat option" where
  "decimal c =
     (case find (\<lambda>s. s \<le> c \<and> c < s + 10) nd_starts of
        None \<Rightarrow> None
      | Some s \<Rightarrow> Some (c - s))"

definition is_decimal :: "codepoint \<Rightarrow> bool" where
  "is_decimal c = (decimal c \<noteq> None)"

definition is_ascii_digit :: "codepoint \<Rightarrow> bool" where
  "is_ascii_digit c = (0x30 \<le> c \<and> c \<le> 0x39)"

text \<open>
  \<open>ITER_RE.search(s)\<close> for \<open>ITER_RE = re.compile(r"(\d+)")\<close>: the match starts at the
  first decimal digit of \<open>s\<close> and, \<open>+\<close> being greedy, takes every digit that follows
  it directly; the result is group 1, or \<open>None\<close> when \<open>s\<close> has no digit.
\<close>

definition ITER_RE_search :: "pystr \<Rightarrow> pystr option" where
  "ITER_RE_search s =
     (case dropWhile (\<lambda>c. \<not> is_decimal c) s of
        [] \<Rightarrow> None
      | c # cs \<Rightarrow> Some (takeWhile is_decimal (c # cs)))"

text \<open>
  \<open>int(s)\<close> for a non-empty string of decimal digits, base ten; any other string is
  answered with \<open>ValueError\<close> here (signs, blanks and underscores, which \<open>int\<close> also
  accepts, never occur in a match of \<open>\d+\<close>). The interpreter's limit on the length of
  a decimal string (4300 digits by default) lies above the length of a path segment and
  is left out.
\<close>

fun digits_value :: "int \<Rightarrow> pystr \<Rightarrow> py_error + int" where
  "digits_value acc [] = Inr acc"
| "digits_value acc (c # cs) =
     (case decimal c of
        None \<Rightarrow> Inl ValueError
      | Some d \<Rightarrow> digits_value (10 * acc + int d) cs)"

definition py_int :: "pystr \<Rightarrow> py_error + int" where
  "py_int s = (if s = [] then Inl ValueError else digits_value 0 s)"

section \<open>Paths\<close>

text \<open>
  A \<open>pathlib\<close> path on a POSIX system: anchored at the root \<open>/\<close> or relative, with its
  names. \<open>parts\<close> lists the root, when there is one, before the names.
\<close>

datatype pypath = PurePath (anchored: bool) (names: "pystr list")

definition parts :: "pypath \<Rightarrow> pystr list" where
  "parts p = (if anchored p then [lit ''/''] else []) @ names p"

definition str_path :: "pypath \<Rightarrow> pystr" where
  "str_path p =
     (if anchored p then lit ''/'' @ join (lit ''/'') (names p)
      else if names p = [] then lit ''.''
      else join (lit ''/'') (names p))"

text \<open>\<open>p / name\<close> for a single relative name.\<close>

definition joinpath :: "pypath \<Rightarrow> pystr \<Rightarrow> pypath" where
  "joinpath p n = PurePath (anchored p) (names p @ [n])"

text \<open>\<open>p.relative_to(other)\<close> raises \<open>ValueError\<close> unless \<open>p\<close> lies at or below \<open>other\<close>.\<close>

definition relative_to :: "pypath \<Rightarrow> pypath \<Rightarrow> py_error + pypath" where
  "relative_to p other =
     (if anchored p = anchored other \<and> prefix (names other) (names p)
      then Inr (PurePath False (drop (length (names other)) (names p)))
      else Inl ValueError)"

section \<open>The Locator: \<open>find_videos\<close>\<close>

definition VIDEO_NAME :: pystr where
  "VIDEO_NAME = lit ''sim.mp4''"

record video =
  path :: pystr
  abs_path :: pystr
  scene :: pystr
  task :: pystr
  model :: pystr
  run_id :: pystr
  iter_name :: pystr
  iter_num :: int

definition videos_dir_of :: "pypath \<Rightarrow> pypath" where
  "videos_dir_of base =
     joinpath (joinpath (joinpath base (lit ''static'')) (lit ''videos''))
       (lit ''highlight-videos'')"

text \<open>\<open>next((i for i, part in enumerate(parts) if 'gpt-5' in part), None)\<close>.\<close>

fun first_index :: "('a \<Rightarrow> bool) \<Rightarrow> 'a list \<Rightarrow> nat option" where
  "first_index P [] = None"
| "first_index P (x # xs) = (if P x then Some 0 else map_option Suc (first_index P xs))"

definition model_idx_of :: "pystr list \<Rightarrow> nat option" where
  "model_idx_of ps = first_index (str_in (lit ''gpt-5'')) ps"

text \<open>
  The iteration number of a run identifier: \<open>m = ITER_RE.search(run_id)\<close>,
  \<open>iter_num = int(m.group(1)) if m else None\<close>, and the record's
  \<open>iter_num if iter_num is not None else 0\<close>.
\<close>

definition iter_num_of :: "pystr \<Rightarrow> py_error + int" where
  "iter_num_of s =
     bind_err (case ITER_RE_search s of
                 None \<Rightarrow> Inr None
               | Some g \<Rightarrow> map_sum id Some (py_int g)) (\<lambda>iter_num.
     Inr (case iter_num of Some n \<Rightarrow> n | None \<Rightarrow> 0))"

text \<open>
  The body of the loop for one found file \<open>p\<close>: \<open>Inr None\<close> is \<open>continue\<close>,
  \<open>Inr (Some v)\<close> the record appended to \<open>res\<close>, \<open>Inl e\<close> an exception that leaves
  the function.
\<close>

definition video_of :: "pypath \<Rightarrow> pypath \<Rightarrow> py_error + video option" where
  "video_of videos_dir p =
     (let rel = (case relative_to p videos_dir of Inr r \<Rightarrow> r | Inl e \<Rightarrow> p);
          web_path = lit ''static/videos/highlight-videos/'' @ str_path rel;
          ps = parts rel
      in if length ps < 6 then Inr None
         else case model_idx_of ps of
           None \<Rightarrow> Inr None
         | Some model_idx \<Rightarrow>
             bind_err (getitem ps 1) (\<lambda>scene.
             bind_err (getitem ps (int model_idx - 1)) (\<lambda>task.
             bind_err (getitem ps (int model_idx)) (\<lambda>model.
             bind_err (getitem ps (int model_idx + 1)) (\<lambda>run_id.
             bind_err (iter_num_of run_id) (\<lambda>n.
             Inr (Some \<lparr>path = web_path, abs_path = str_path p, scene = scene,
                        task = task, model = model, run_id = run_id,
                        iter_name = run_id, iter_num = n\<rparr>)))))))"

fun find_loop :: "pypath \<Rightarrow> video list \<Rightarrow> pypath list \<Rightarrow> py_error + video list" where
  "find_loop videos_dir res [] = Inr res"
| "find_loop videos_dir res (p # ps) =
     (case video_of videos_dir p of
        Inl e \<Rightarrow> Inl e
      | Inr None \<Rightarrow> find_loop videos_dir res ps
      | Inr (Some v) \<Rightarrow> find_loop videos_dir (res @ [v]) ps)"

text \<open>
  The surroundings of a run: whether the videos directory exists, the paths
  \<open>rglob\<close> yields, in its order (the traversal itself is taken to succeed), which files
  can be opened for writing, and which characters the encoder of standard output
  accepts.
\<close>

record environment =
  dir_exists :: bool
  rglob :: "pypath list"
  writable :: "pypath \<Rightarrow> bool"
  stdout_encodes :: "codepoint \<Rightarrow> bool"

text \<open>
  \<open>print(s)\<close> encodes the whole string before it writes: when the stream's encoder
  refuses a character, \<open>UnicodeEncodeError\<close> is raised and nothing reaches the stream;
  otherwise the string is one more entry of the output. With UTF-8 and strict error
  handling, the default of a terminal and the encoding \<open>main\<close> opens the output file
  with, the refused characters are the surrogates, which a file name can bring in.
\<close>

definition can_print :: "environment \<Rightarrow> pystr \<Rightarrow> bool" where
  "can_print env s = list_all (stdout_encodes env) s"

definition print_line :: "environment \<Rightarrow> pystr list \<Rightarrow> pystr \<Rightarrow> py_error + pystr list" where
  "print_line env printed s =
     (if can_print env s then Inr (printed @ [s]) else Inl UnicodeEncodeError)"

definition utf8_strict :: "codepoint \<Rightarrow> bool" where
  "utf8_strict c = (\<not> (0xD800 \<le> c \<and> c \<le> 0xDFFF))"

text \<open>
  \<open>find_videos\<close> returns the lines it printed with its result; a failing \<open>print\<close>
  leaves the function before the search.
\<close>

definition find_videos :: "environment \<Rightarrow> pypath \<Rightarrow> pystr list \<times> (py_error + video list)" where
  "find_videos env base =
     (let videos_dir = videos_dir_of base
      in if \<not> dir_exists env
         then (case print_line env []
                      (lit ''Videos directory not found at '' @ str_path videos_dir) of
                 Inl e \<Rightarrow> ([], Inl e)
               | Inr printed \<Rightarrow> (printed, Inr []))
         else (case print_line env []
                      (lit ''Searching for videos in '' @ str_path videos_dir) of
                 Inl e \<Rightarrow> ([], Inl e)
               | Inr printed \<Rightarrow> (printed, find_loop videos_dir [] (rglob env))))"

text \<open>
  What \<open>videos_dir.rglob(VIDEO_NAME)\<close> can yield: a file below the videos directory
  whose last name is \<open>sim.mp4\<close>.
\<close>

definition below :: "pypath \<Rightarrow> pystr list \<Rightarrow> pypath" where
  "below videos_dir segments = PurePath (anchored videos_dir) (names videos_dir @ segments)"

definition discovered :: "pystr list \<Rightarrow> bool" where
  "discovered segments = (segments \<noteq> [] \<and> last segments = VIDEO_NAME)"

section \<open>The Aggregator: \<open>group_by_task_model\<close>\<close>

text \<open>
  A \<open>dict\<close> keeps its keys in the order of their first insertion, so it is an
  association list; \<open>dict_append\<close> is \<open>grouped[key].append(v)\<close> on a
  \<open>defaultdict(list)\<close>.
\<close>

type_synonym grouping = "((pystr \<times> pystr) \<times> video list) list"

fun dict_append :: "'k \<Rightarrow> 'v \<Rightarrow> ('k \<times> 'v list) list \<Rightarrow> ('k \<times> 'v list) list" where
  "dict_append k v [] = [(k, [v])]"
| "dict_append k v ((k', vs) # rest) =
     (if k' = k then (k', vs @ [v]) # rest else (k', vs) # dict_append k v rest)"

definition group_loop :: "video list \<Rightarrow> grouping" where
  "group_loop videos =
     foldl (\<lambda>grouped v. dict_append (task v, model v) v grouped) [] videos"

text \<open>The sort key \<open>lambda x: (x["iter_num"], x["path"])\<close>; \<open>list.sort\<close> is stable.\<close>

definition video_key :: "video \<Rightarrow> int \<times> pystr" where
  "video_key x = (iter_num x, path x)"

definition sort_and_cut :: "video list \<Rightarrow> video list" where
  "sort_and_cut videos_for_key =
     (let sorted_videos = sort_key video_key videos_for_key
      in if length sorted_videos = 6 then take 5 sorted_videos else sorted_videos)"

definition group_by_task_model :: "video list \<Rightarrow> grouping" where
  "group_by_task_model videos =
     map (\<lambda>(k, videos_for_key). (k, sort_and_cut videos_for_key)) (group_loop videos)"

section \<open>The Renderer: \<open>render_html\<close>\<close>

text \<open>\<open>str(n)\<close> for a natural number.\<close>

fun str_nat :: "nat \<Rightarrow> pystr" where
  "str_nat n = (if n < 10 then [0x30 + n] else str_nat (n div 10) @ [0x30 + n mod 10])"

declare str_nat.simps [simp del]

text \<open>
  \<open>json.dumps\<close> of a dictionary from strings to lists of strings, with the default
  separators and \<open>ensure_ascii\<close>: every character outside the printable ASCII range,
  the quote and the backslash are escaped.
\<close>

definition hex_digit :: "nat \<Rightarrow> codepoint" where
  "hex_digit d = (if d < 10 then 0x30 + d else 0x61 + (d - 10))"

definition hex4 :: "nat \<Rightarrow> pystr" where
  "hex4 n = [hex_digit (n div 4096 mod 16), hex_digit (n div 256 mod 16),
             hex_digit (n div 16 mod 16), hex_digit (n mod 16)]"

definition json_escape :: "codepoint \<Rightarrow> pystr" where
  "json_escape c =
     (if c = 0x5C then [0x5C, 0x5C]
      else if c = 0x22 then [0x5C, 0x22]
      else if c = 0x08 then [0x5C, 0x62]
      else if c = 0x0C then [0x5C, 0x66]
      else if c = 0x0A then [0x5C, 0x6E]
      else if c = 0x0D then [0x5C, 0x72]
      else if c = 0x09 then [0x5C, 0x74]
      else if 0x20 \<le> c \<and> c \<le> 0x7E then [c]
      else if c < 0x10000 then [0x5C, 0x75] @ hex4 c
      else [0x5C, 0x75] @ hex4 (0xD800 + (c - 0x10000) div 1024 mod 1024) @
           [0x5C, 0x75] @ hex4 (0xDC00 + (c - 0x10000) mod 1024))"

definition json_str :: "pystr \<Rightarrow> pystr" where
  "json_str s = [0x22] @ concat (map json_escape s) @ [0x22]"

definition json_list :: "pystr list \<Rightarrow> pystr" where
  "json_list xs = lit ''['' @ join (lit '', '') (map json_str xs) @ lit '']''"

definition json_dumps :: "(pystr \<times> pystr list) list \<Rightarrow> pystr" where
  "json_dumps d =
     lit ''{'' @ join (lit '', '') (map (\<lambda>(k, xs). json_str k @ lit '': '' @ json_list xs) d)
       @ lit ''}''"

text \<open>\<open>d[k]\<close> on a dictionary.\<close>

definition dict_get :: "('k \<times> 'v) list \<Rightarrow> 'k \<Rightarrow> py_error + 'v" where
  "dict_get d k = (case map_of d k of None \<Rightarrow> Inl KeyError | Some v \<Rightarrow> Inr v)"

text \<open>The lines appended to \<open>out\<close>, in the order of the source.\<close>

definition head_lines :: "pystr list" where
  \<open>head_lines =
    [lit ''<!DOCTYPE html>'',
     lit ''<html>'',
     lit ''<head>'',
     lit ''  <meta charset="utf-8">'',
     lit ''  <meta name="viewport" content="width=device-width, initial-scale=1">'',
     lit ''  <link rel="stylesheet" href="static/css/bulma.min.css">'',
     lit ''</head>'',
     lit ''<body>'']\<close>

definition task_select_open :: "pystr list" where
  \<open>task_select_open =
    [lit ''<div class="section">'',
     lit ''  <div class="container is-max-desktop">'',
     lit ''    <div class="field">'',
     lit ''      <label class="label">Task</label>'',
     lit ''      <div class="control">'',
     lit ''        <div class="select">'',
     lit ''          <select id="task-select" onchange="updateTask()">'']\<close>

definition option_line :: "pystr \<Rightarrow> pystr" where
  \<open>option_line t = lit ''            <option value="'' @ t @ lit ''">'' @ t @ lit ''</option>''\<close>

definition select_close :: "pystr list" where
  \<open>select_close =
    [lit ''          </select>'',
     lit ''        </div>'',
     lit ''      </div>'',
     lit ''    </div>'']\<close>

definition model_select_open :: "pystr list" where
  \<open>model_select_open =
    [lit ''    <div class="field">'',
     lit ''      <label class="label">Model</label>'',
     lit ''      <div class="control">'',
     lit ''        <div class="select">'',
     lit ''          <select id="model-select" onchange="updateModel()">'']\<close>

definition controls_close :: "pystr list" where
  \<open>controls_close = [lit ''  </div>'', lit ''</div>'']\<close>

definition caption_of :: "nat \<Rightarrow> pystr" where
  "caption_of idx = lit ''Feedback iteration '' @ str_nat idx"

definition card_lines :: "nat \<times> video \<Rightarrow> pystr list" where
  \<open>card_lines iv =
    (case iv of (idx, v) \<Rightarrow>
      let caption = caption_of idx in
      [lit ''      <div class="column is-one-third-desktop is-half-mobile">'',
       lit ''        <div class="card">'',
       lit ''          <div class="card-image">'',
       lit ''            <video autoplay loop muted playsinline preload="metadata" style="width:100%; height:auto;">'',
       lit ''              <source src="'' @ path v @ lit ''" type="video/mp4">'',
       lit ''            </video>'',
       lit ''          </div>'',
       lit ''          <div class="card-content">'',
       lit ''            <p class="subtitle is-6">'' @ caption @ lit ''</p>'',
       lit ''          </div>'',
       lit ''        </div>'',
       lit ''      </div>''])\<close>

text \<open>
  The identifier of a section. The heading between task and model is the three
  characters U+00E2, U+20AC, U+201D of the source text, between blanks.
\<close>

definition section_id_of :: "pystr \<Rightarrow> pystr \<Rightarrow> pystr" where
  "section_id_of t m = t @ lit ''-'' @ m"

definition section_open :: "pystr \<Rightarrow> pystr" where
  \<open>section_open section_id =
     lit ''<section class="section video-grid" id="'' @ section_id @ lit ''" style="display:none;">''\<close>

definition section_lines :: "(pystr \<times> pystr) \<times> video list \<Rightarrow> pystr list" where
  \<open>section_lines item =
    (case item of ((t, m), vids) \<Rightarrow>
      [section_open (section_id_of t m),
       lit ''  <div class="container is-max-desktop">'',
       lit ''    <h2 class="title is-3">'' @ t @ lit '' '' @ [0xE2, 0x20AC, 0x201D] @ lit '' '' @ m @ lit ''</h2>'',
       lit ''    <div class="columns is-multiline">'']
      @ concat (map card_lines (enumerate 0 vids))
      @ [lit ''    </div>'',
         lit ''  </div>'',
         lit ''</section>'',
         []])\<close>

definition script_lines :: "(pystr \<times> pystr list) list \<Rightarrow> pystr list" where
  \<open>script_lines models_by_task =
    [lit ''<script>'',
     lit ''const modelsByTask = '' @ json_dumps models_by_task @ lit '';'',
     lit ''function updateTask() {'',
     lit ''  const task = document.getElementById("task-select").value;'',
     lit ''  const modelSel = document.getElementById("model-select");'',
     lit ''  modelSel.innerHTML = "";'',
     lit ''  for (const m of modelsByTask[task]) {'',
     lit ''    const opt = document.createElement("option");'',
     lit ''    opt.value = m; opt.textContent = m;'',
     lit ''    modelSel.appendChild(opt);'',
     lit ''  }'',
     lit ''  updateModel();'',
     lit ''}'',
     lit ''function updateModel() {'',
     lit ''  const task = document.getElementById("task-select").value;'',
     lit ''  const model = document.getElementById("model-select").value;'',
     lit ''  // hide all sections'',
     lit ''  document.querySelectorAll(".video-grid").forEach(s => s.style.display = "none");'',
     lit ''  // show the selected one'',
     lit ''  const section = document.getElementById(task + "-" + model);'',
     lit ''  if (section) section.style.display = "block";'',
     lit ''}'',
     lit ''// initialize'',
     lit ''updateTask();'',
     lit ''</script>'']\<close>

definition closing_lines :: "pystr list" where
  \<open>closing_lines = [lit ''</body>'', lit ''</html>'']\<close>

text \<open>
  \<open>sorted(set(...))\<close> is the strictly increasing list of the distinct elements. The
  lines are collected in \<open>out\<close> in the order of the source; the exception raised by
  \<open>tasks[0]\<close> or by the dictionary lookup leaves the function before anything is
  returned.
\<close>

definition tasks_of :: "grouping \<Rightarrow> pystr list" where
  "tasks_of grouped = sort (remdups (map (\<lambda>(k, vids). fst k) grouped))"

definition models_by_task_of :: "grouping \<Rightarrow> (pystr \<times> pystr list) list" where
  "models_by_task_of grouped =
     map (\<lambda>t. (t, sort (remdups (map snd (filter (\<lambda>(tt, m). tt = t) (map fst grouped))))))
       (tasks_of grouped)"

definition sorted_items :: "grouping \<Rightarrow> grouping" where
  "sorted_items grouped = sort_key (\<lambda>x. (fst (fst x), snd (fst x))) grouped"

definition render_lines :: "grouping \<Rightarrow> py_error + pystr list" where
  "render_lines grouped =
     (let tasks = tasks_of grouped;
          models_by_task = models_by_task_of grouped;
          out = head_lines @ task_select_open @ map option_line tasks @ select_close
                @ model_select_open
      in bind_err (getitem tasks 0) (\<lambda>first_task.
         bind_err (dict_get models_by_task first_task) (\<lambda>first_models.
         Inr (out @ map option_line first_models @ select_close @ controls_close
              @ concat (map section_lines (sorted_items grouped))
              @ script_lines models_by_task
              @ closing_lines))))"

definition render_html :: "grouping \<Rightarrow> py_error + pystr" where
  "render_html grouped = map_sum id (join [0x0A]) (render_lines grouped)"

section \<open>The program: \<open>main\<close>\<close>

text \<open>
  What a run leaves behind: the strings printed to standard output, one per call of
  \<open>print\<close> (each is followed by a newline in the stream), the file written, and the
  exception that ended the run, if any. \<open>base\<close> is the resolved base directory and
  \<open>out_arg\<close> the path of a non-empty \<open>--out\<close> argument. The output file is opened with
  the encoding UTF-8: \<open>open\<close> creates or empties it, and \<open>f.write\<close> raises
  \<open>UnicodeEncodeError\<close>, leaving it empty, when the document holds a surrogate.
  \<open>main_with\<close> takes the aggregator and the renderer as arguments, and \<open>main\<close> is the
  program.
\<close>

record outcome =
  stdout :: "pystr list"
  written :: "(pypath \<times> pystr) option"
  raised :: "py_error option"

definition stream_of :: "pystr list \<Rightarrow> pystr" where
  "stream_of printed = concat (map (\<lambda>l. l @ [0x0A]) printed)"

definition main_with ::
  "(video list \<Rightarrow> grouping) \<Rightarrow> (grouping \<Rightarrow> py_error + pystr) \<Rightarrow>
   environment \<Rightarrow> pypath \<Rightarrow> pypath option \<Rightarrow> outcome" where
  "main_with aggregate render env base out_arg =
     (case find_videos env base of
        (printed, Inl e) \<Rightarrow> \<lparr>stdout = printed, written = None, raised = Some e\<rparr>
      | (printed, Inr videos) \<Rightarrow>
          if videos = []
          then (case print_line env printed (lit ''<!-- No videos found -->'') of
                  Inl e \<Rightarrow> \<lparr>stdout = printed, written = None, raised = Some e\<rparr>
                | Inr printed' \<Rightarrow> \<lparr>stdout = printed', written = None, raised = None\<rparr>)
          else
            (case render (aggregate videos) of
               Inl e \<Rightarrow> \<lparr>stdout = printed, written = None, raised = Some e\<rparr>
             | Inr html \<Rightarrow>
                 (case out_arg of
                    Some outp \<Rightarrow>
                      if \<not> writable env outp
                      then \<lparr>stdout = printed, written = None, raised = Some OSError\<rparr>
                      else if \<not> list_all utf8_strict html
                      then \<lparr>stdout = printed, written = Some (outp, []),
                            raised = Some UnicodeEncodeError\<rparr>
                      else
                        (case print_line env printed
                                (lit ''Wrote HTML to '' @ str_path outp) of
                           Inl e \<Rightarrow> \<lparr>stdout = printed, written = Some (outp, html),
                                     raised = Some e\<rparr>
                         | Inr printed' \<Rightarrow> \<lparr>stdout = printed', written = Some (outp, html),
                                            raised = None\<rparr>)
                  | None \<Rightarrow>
                      (case print_line env printed html of
                         Inl e \<Rightarrow> \<lparr>stdout = printed, written = None, raised = Some e\<rparr>
                       | Inr printed' \<Rightarrow> \<lparr>stdout = printed', written = None,
                                          raised = None\<rparr>))))"

definition main :: "environment \<Rightarrow> pypath \<Rightarrow> pypath option \<Rightarrow> outcome" where
  "main = main_with group_by_task_model render_html"

section \<open>Notions of the specification\<close>

text \<open>
  The integer a string of decimal digits denotes, with the last digit the least
  significant, and the iteration number as the specification words it: the value of the
  first maximal run of ASCII digits, or 0 when there is none.
\<close>

definition digit_val :: "codepoint \<Rightarrow> nat" where
  "digit_val c = (case decimal c of Some d \<Rightarrow> d | None \<Rightarrow> 0)"

fun value_le :: "nat list \<Rightarrow> int" where
  "value_le [] = 0"
| "value_le (d # ds) = int d + 10 * value_le ds"

definition decimal_number :: "pystr \<Rightarrow> int" where
  "decimal_number ds = value_le (rev (map digit_val ds))"

definition first_ascii_run :: "pystr \<Rightarrow> pystr" where
  "first_ascii_run s = takeWhile is_ascii_digit (dropWhile (\<lambda>c. \<not> is_ascii_digit c) s)"

definition spec_iter_number :: "pystr \<Rightarrow> int" where
  "spec_iter_number s =
     (if list_ex is_ascii_digit s
      then value_le (rev (map (\<lambda>c. c - 0x30) (first_ascii_run s)))
      else 0)"

text \<open>
  A found path qualifies for a record when it has at least six segments, one of which
  contains \<open>gpt-5\<close>.
\<close>

definition qualifies :: "pystr list \<Rightarrow> bool" where
  "qualifies segs = (6 \<le> length segs \<and> list_ex (sublist (lit ''gpt-5'')) segs)"

text \<open>
  The section elements of a document, read off its text: for every occurrence of
  \<open><section\<close> the attribute text that follows it, up to the \<open>>\<close> that closes the tag.
  \<open>section_attributes\<close> is the attribute text of a hidden section with a given
  identifier. A line \<open>scans_to\<close> the tags it contributes wherever it stands in a text.
\<close>

fun section_tags :: "pystr \<Rightarrow> pystr list" where
  "section_tags [] = []"
| "section_tags (c # cs) =
     (if prefix (lit ''<section'') (c # cs)
      then takeWhile (\<lambda>x. x \<noteq> 0x3E) (drop 8 (c # cs)) # section_tags cs
      else section_tags cs)"

definition section_attributes :: "pystr \<Rightarrow> pystr" where
  \<open>section_attributes i = lit '' class="section video-grid" id="'' @ i @ lit ''" style="display:none;"''\<close>

definition scans_to :: "pystr \<Rightarrow> pystr list \<Rightarrow> bool" where
  "scans_to l ts = (\<forall>rest. section_tags (l @ rest) = ts @ section_tags rest)"

text \<open>
  The Renderer writes names and paths into the document as they are. A string is plain
  when it holds none of the characters \<open><\<close>, \<open>>\<close>, \<open>"\<close> and \<open>&\<close>, which HTML reads as
  markup; a grouping is plain when its task names, model names and web paths are.
\<close>

definition html_plain :: "pystr \<Rightarrow> bool" where
  "html_plain s = list_all (\<lambda>c. c \<noteq> 0x3C \<and> c \<noteq> 0x3E \<and> c \<noteq> 0x22 \<and> c \<noteq> 0x26) s"

definition plain_grouping :: "grouping \<Rightarrow> bool" where
  "plain_grouping grouped =
     list_all (\<lambda>((t, m), vids). html_plain t \<and> html_plain m \<and>
                 list_all (\<lambda>v. html_plain (path v)) vids) grouped"

section \<open>Example records\<close>

text \<open>
  A record of the group \<open>(taskX, gpt-5)\<close> with a given scene, iteration number and
  path, for the concrete instances below.
\<close>

definition clip :: "pystr \<Rightarrow> int \<Rightarrow> pystr \<Rightarrow> video" where
  "clip sc n p =
     \<lparr>path = p, abs_path = lit ''/'' @ p, scene = sc, task = lit ''taskX'',
      model = lit ''gpt-5'', run_id = lit ''run'', iter_name = lit ''run'', iter_num = n\<rparr>"

definition six_clips :: "video list" where
  "six_clips =
     [clip [] 3 (lit ''d''), clip [] 1 (lit ''b''), clip [] 5 (lit ''f''),
      clip [] 0 (lit ''a''), clip [] 4 (lit ''e''), clip [] 2 (lit ''c'')]"

definition seven_clips :: "video list" where
  "seven_clips = clip [] 6 (lit ''g'') # six_clips"

text \<open>Two different records with the same iteration number and path.\<close>

definition twin_a :: video where
  "twin_a = clip (lit ''sceneA'') 0 (lit ''p'')"

definition twin_b :: video where
  "twin_b = clip (lit ''sceneB'') 0 (lit ''p'')"

text \<open>A grouping with two groups.\<close>

definition two_groups :: grouping where
  "two_groups =
     [((lit ''stack'', lit ''gpt-5''), [twin_a]),
      ((lit ''push'', lit ''gpt-5''), [twin_a, twin_b])]"

text \<open>
  A project with two videos: task \<open>a\<close> with model \<open>b-gpt-5\<close>, and task \<open>a-b\<close> with
  model \<open>gpt-5\<close>.
\<close>

definition project_root :: pypath where
  "project_root = PurePath True [lit ''proj'']"

definition colliding_tree :: environment where
  "colliding_tree =
     \<lparr>dir_exists = True,
      rglob = map (below (videos_dir_of project_root))
        [[lit ''x'', lit ''a'', lit ''b-gpt-5'', lit ''run_1'', lit ''y'', lit ''sim.mp4''],
         [lit ''x'', lit ''a-b'', lit ''gpt-5'', lit ''run_1'', lit ''y'', lit ''sim.mp4'']],
      writable = (\<lambda>p. True),
      stdout_encodes = utf8_strict\<rparr>"

text \<open>A project without a videos directory.\<close>

definition bare_tree :: environment where
  "bare_tree =
     \<lparr>dir_exists = False, rglob = [], writable = (\<lambda>p. True),
      stdout_encodes = utf8_strict\<rparr>"

text \<open>
  A project with three videos: one in the expected layout, one with four segments, and
  one without a model directory.
\<close>

definition mixed_tree :: environment where
  "mixed_tree =
     \<lparr>dir_exists = True,
      rglob = map (below (videos_dir_of project_root))
        [[lit ''a'', lit ''gpt-5'', lit ''run_1'', lit ''sim.mp4''],
         [lit ''set1'', lit ''sceneA'', lit ''taskX'', lit ''gpt-5-2025-08-07'', lit ''run_03'',
          lit ''sim.mp4''],
         [lit ''set1'', lit ''sceneA'', lit ''taskX'', lit ''llama'', lit ''run_1'',
          lit ''sim.mp4'']],
      writable = (\<lambda>p. True),
      stdout_encodes = utf8_strict\<rparr>"

text \<open>
  Projects with one video whose first directory is the model directory, at depth six
  and at depth five.
\<close>

definition model_first_tree :: environment where
  "model_first_tree =
     \<lparr>dir_exists = True,
      rglob = map (below (videos_dir_of project_root))
        [[lit ''gpt-5-mini'', lit ''b'', lit ''c'', lit ''d'', lit ''e'', lit ''sim.mp4'']],
      writable = (\<lambda>p. True),
      stdout_encodes = utf8_strict\<rparr>"

definition model_first_short_tree :: environment where
  "model_first_short_tree =
     \<lparr>dir_exists = True,
      rglob = map (below (videos_dir_of project_root))
        [[lit ''gpt-5-mini'', lit ''b'', lit ''c'', lit ''d'', lit ''sim.mp4'']],
      writable = (\<lambda>p. True),
      stdout_encodes = utf8_strict\<rparr>"

text \<open>A base directory whose name holds the surrogate U+DCFF.\<close>

definition surrogate_root :: pypath where
  "surrogate_root = PurePath True [[0x70, 0xDCFF]]"

text \<open>A grouping whose task name holds markup.\<close>

definition markup_group :: grouping where
  "markup_group = [((lit ''t<section x>'', lit ''gpt-5''), [twin_a])]"

section \<open>Properties of the Locator\<close>


lemma str_in_sublist: "str_in sub s = sublist sub s"
  by (induction s) (simp_all add: sublist_Cons_right)

lemma first_index_None: "first_index P xs = None \<longleftrightarrow> (\<forall>x\<in>set xs. \<not> P x)"
  by (induction xs) auto

lemma first_index_Some:
  "first_index P xs = Some i \<longleftrightarrow> i < length xs \<and> P (xs ! i) \<and> (\<forall>j<i. \<not> P (xs ! j))"
proof (induction xs arbitrary: i)
  case Nil
  show ?case by simp
next
  case (Cons x xs)
  show ?case
  proof (cases "P x")
    case True
    then show ?thesis by (cases i) auto
  next
    case False
    show ?thesis
    proof (cases i)
      case 0
      with False show ?thesis by simp
    next
      case (Suc k)
      have "(\<forall>j<Suc k. \<not> P ((x # xs) ! j)) \<longleftrightarrow> (\<forall>j<k. \<not> P (xs ! j))"
        using False by (auto simp: less_Suc_eq_0_disj)
      with False Suc Cons.IH [of k] show ?thesis by auto
    qed
  qed
qed

lemma relative_to_below: "relative_to (below vd segs) vd = Inr (PurePath False segs)"
  by (simp add: relative_to_def below_def)

lemma parts_relative: "parts (PurePath False segs) = segs"
  by (simp add: parts_def)

lemma getitem_nat: "i < length xs \<Longrightarrow> getitem xs (int i) = Inr (xs ! i)"
  by (simp add: getitem_def Let_def)

lemma getitem_minus_one: "xs \<noteq> [] \<Longrightarrow> getitem xs (- 1) = Inr (last xs)"
  by (cases xs rule: rev_cases) (simp_all add: getitem_def Let_def nth_append)

lemma gpt5_not_in_VIDEO_NAME: "\<not> str_in (lit ''gpt-5'') VIDEO_NAME"
  by (simp add: VIDEO_NAME_def lit_def)

lemma model_idx_bound:
  assumes "discovered segs" and "model_idx_of segs = Some i"
  shows "i + 1 < length segs"
proof -
  from assms(2) have i: "i < length segs" and P: "str_in (lit ''gpt-5'') (segs ! i)"
    by (simp_all add: model_idx_of_def first_index_Some)
  from assms(1) have ne: "segs \<noteq> []" and l: "last segs = VIDEO_NAME"
    by (simp_all add: discovered_def)
  have "i \<noteq> length segs - 1"
  proof
    assume "i = length segs - 1"
    with ne l have "segs ! i = VIDEO_NAME" by (simp add: last_conv_nth)
    with P gpt5_not_in_VIDEO_NAME show False by simp
  qed
  with i show ?thesis by simp
qed

lemma value_le_append: "value_le (xs @ ys) = value_le xs + 10 ^ length xs * value_le ys"
  by (induction xs) (simp_all add: algebra_simps)

lemma decimal_number_Cons:
  "decimal_number (c # cs) = int (digit_val c) * 10 ^ length cs + decimal_number cs"
  by (simp add: decimal_number_def value_le_append)

lemma digits_value_decimal:
  "\<forall>c\<in>set g. is_decimal c \<Longrightarrow>
   digits_value acc g = Inr (acc * 10 ^ length g + decimal_number g)"
proof (induction g arbitrary: acc)
  case Nil
  show ?case by (simp add: decimal_number_def)
next
  case (Cons c cs)
  then obtain d where d: "decimal c = Some d" by (auto simp: is_decimal_def)
  then have "digit_val c = d" by (simp add: digit_val_def)
  with Cons d show ?case by (simp add: decimal_number_Cons algebra_simps)
qed

lemma py_int_digits:
  "g \<noteq> [] \<Longrightarrow> \<forall>c\<in>set g. is_decimal c \<Longrightarrow> py_int g = Inr (decimal_number g)"
  by (simp add: py_int_def digits_value_decimal)

lemma ITER_RE_search_None: "ITER_RE_search s = None \<longleftrightarrow> (\<forall>c\<in>set s. \<not> is_decimal c)"
proof -
  define t where "t = dropWhile (\<lambda>c. \<not> is_decimal c) s"
  have "ITER_RE_search s = None \<longleftrightarrow> t = []"
    unfolding ITER_RE_search_def t_def [symmetric] by (cases t) simp_all
  then show ?thesis by (simp add: t_def)
qed

lemma ITER_RE_search_Some:
  "ITER_RE_search s = Some g \<Longrightarrow> g \<noteq> [] \<and> (\<forall>c\<in>set g. is_decimal c)"
proof -
  assume a: "ITER_RE_search s = Some g"
  then obtain c cs where d: "dropWhile (\<lambda>c. \<not> is_decimal c) s = c # cs"
    and g: "g = takeWhile is_decimal (c # cs)"
    by (auto simp: ITER_RE_search_def split: list.splits)
  from d have "is_decimal c" using hd_dropWhile [of "\<lambda>c. \<not> is_decimal c" s] by auto
  with g have "g \<noteq> []" by simp
  moreover from g have "\<forall>c\<in>set g. is_decimal c" by (auto dest: set_takeWhileD)
  ultimately show ?thesis by simp
qed

lemma ITER_RE_search_run:
  assumes "\<forall>c\<in>set pre. \<not> is_decimal c" and "run \<noteq> []" and "\<forall>c\<in>set run. is_decimal c"
    and "post = [] \<or> \<not> is_decimal (hd post)"
  shows "ITER_RE_search (pre @ run @ post) = Some run"
proof -
  obtain c cs where run: "run = c # cs" using assms(2) by (cases run) auto
  with assms(3) have c: "is_decimal c" by simp
  have "dropWhile (\<lambda>c. \<not> is_decimal c) (pre @ run @ post) = run @ post"
    using assms(1) c run by (simp add: dropWhile_append3)
  moreover have "takeWhile is_decimal (run @ post) = run"
  proof (cases post)
    case Nil
    with assms(3) show ?thesis by simp
  next
    case (Cons p ps)
    with assms(4) have "\<not> is_decimal p" by simp
    with assms(3) Cons show ?thesis by (simp add: takeWhile_tail)
  qed
  ultimately show ?thesis by (simp add: ITER_RE_search_def run)
qed

lemma iter_num_of_total: "\<exists>n. iter_num_of s = Inr n"
proof (cases "ITER_RE_search s")
  case None
  then show ?thesis by (simp add: iter_num_of_def bind_err_def)
next
  case (Some g)
  with ITER_RE_search_Some [OF Some] show ?thesis
    by (simp add: iter_num_of_def bind_err_def py_int_digits)
qed


lemma video_of_below:
  "video_of vd (below vd segs) =
     (if length segs < 6 then Inr None
      else case model_idx_of segs of
        None \<Rightarrow> Inr None
      | Some i \<Rightarrow>
          bind_err (getitem segs 1) (\<lambda>scene.
          bind_err (getitem segs (int i - 1)) (\<lambda>task.
          bind_err (getitem segs (int i)) (\<lambda>model.
          bind_err (getitem segs (int i + 1)) (\<lambda>run_id.
          bind_err (iter_num_of run_id) (\<lambda>n.
          Inr (Some \<lparr>path = lit ''static/videos/highlight-videos/'' @ str_path (PurePath False segs),
                     abs_path = str_path (below vd segs), scene = scene,
                     task = task, model = model, run_id = run_id,
                     iter_name = run_id, iter_num = n\<rparr>)))))))"
  by (simp add: video_of_def relative_to_below parts_relative Let_def split: option.split)

lemma video_of_found:
  assumes d: "discovered segs" and len: "6 \<le> length segs" and m: "model_idx_of segs = Some i"
  shows "\<exists>v. video_of vd (below vd segs) = Inr (Some v) \<and> scene v = segs ! 1 \<and>
          getitem segs (int i - 1) = Inr (task v) \<and> model v = segs ! i \<and>
          run_id v = segs ! (i + 1) \<and> iter_num_of (run_id v) = Inr (iter_num v)"
proof -
  from model_idx_bound [OF d m] have b: "i + 1 < length segs" .
  have g1: "getitem segs 1 = Inr (segs ! 1)"
    using len getitem_nat [of 1 segs] by simp
  have gi: "getitem segs (int i) = Inr (segs ! i)"
    using b by (simp add: getitem_nat)
  have gs: "getitem segs (int i + 1) = Inr (segs ! (i + 1))"
    using b getitem_nat [of "i + 1" segs] by (simp add: add.commute)
  have "segs \<noteq> []" using len by auto
  then obtain t where gt: "getitem segs (int i - 1) = Inr t"
    using b by (cases "i = 0") (auto simp: getitem_def Let_def)
  obtain n where n: "iter_num_of (segs ! (i + 1)) = Inr n"
    using iter_num_of_total by blast
  show ?thesis
    using len m g1 gi gs gt n by (simp add: video_of_below bind_err_def)
qed

lemma video_of_discovered:
  assumes "discovered segs"
  shows "\<exists>r. video_of vd (below vd segs) = Inr r"
proof (cases "length segs < 6")
  case True
  then show ?thesis by (simp add: video_of_below)
next
  case False
  show ?thesis
  proof (cases "model_idx_of segs")
    case None
    then show ?thesis by (simp add: video_of_below)
  next
    case (Some i)
    from False have "6 \<le> length segs" by simp
    from video_of_found [OF assms this Some, of vd] show ?thesis by blast
  qed
qed

lemma find_loop_total:
  "\<forall>p\<in>set ps. \<exists>r. video_of vd p = Inr r \<Longrightarrow> \<exists>vs. find_loop vd res ps = Inr vs"
proof (induction ps arbitrary: res)
  case Nil
  show ?case by simp
next
  case (Cons p ps)
  then obtain r where r: "video_of vd p = Inr r" by auto
  from Cons have "\<And>res. \<exists>vs. find_loop vd res ps = Inr vs" by simp
  with r show ?case by (cases r) simp_all
qed

lemma qualifies_iff:
  "qualifies segs \<longleftrightarrow> 6 \<le> length segs \<and> model_idx_of segs \<noteq> None"
  by (auto simp: qualifies_def model_idx_of_def first_index_None str_in_sublist list_ex_iff)

lemma video_of_qualifies:
  assumes "discovered segs"
  shows "(\<exists>v. video_of vd (below vd segs) = Inr (Some v)) \<longleftrightarrow> qualifies segs"
proof
  assume "\<exists>v. video_of vd (below vd segs) = Inr (Some v)"
  then show "qualifies segs"
    by (auto simp: video_of_below qualifies_iff split: if_splits option.splits)
next
  assume "qualifies segs"
  then obtain i where "6 \<le> length segs" and "model_idx_of segs = Some i"
    by (auto simp: qualifies_iff)
  from video_of_found [OF assms this, of vd] show "\<exists>v. video_of vd (below vd segs) = Inr (Some v)"
    by blast
qed

lemma find_loop_records:
  assumes "\<forall>segs\<in>set paths. discovered segs"
  shows "\<exists>vs. find_loop vd res (map (below vd) paths) = Inr (res @ vs) \<and>
           length vs = length (filter qualifies paths) \<and>
           (\<forall>k<length vs. video_of vd (below vd (filter qualifies paths ! k)) = Inr (Some (vs ! k)))"
  using assms
proof (induction paths arbitrary: res)
  case Nil
  show ?case by simp
next
  case (Cons segs paths)
  from Cons.prems have d: "discovered segs" and rest: "\<forall>segs\<in>set paths. discovered segs"
    by simp_all
  show ?case
  proof (cases "qualifies segs")
    case False
    with video_of_qualifies [OF d, of vd] video_of_discovered [OF d, of vd]
    have n: "video_of vd (below vd segs) = Inr None" by (metis not_Some_eq)
    from Cons.IH [OF rest, of res] n False show ?thesis by simp
  next
    case True
    with video_of_qualifies [OF d, of vd]
    obtain v where v: "video_of vd (below vd segs) = Inr (Some v)" by blast
    from Cons.IH [OF rest, of "res @ [v]"]
    obtain vs where vs: "find_loop vd (res @ [v]) (map (below vd) paths) = Inr ((res @ [v]) @ vs)"
      and l: "length vs = length (filter qualifies paths)"
      and r: "\<forall>k<length vs. video_of vd (below vd (filter qualifies paths ! k)) = Inr (Some (vs ! k))"
      by blast
    have "\<forall>k<length (v # vs).
        video_of vd (below vd (filter qualifies (segs # paths) ! k)) = Inr (Some ((v # vs) ! k))"
    proof (intro allI impI)
      fix k
      assume "k < length (v # vs)"
      then show "video_of vd (below vd (filter qualifies (segs # paths) ! k)) =
          Inr (Some ((v # vs) ! k))"
        using True v r by (cases k) simp_all
    qed
    with vs l v True show ?thesis
      by (intro exI [of _ "v # vs"]) simp
  qed
qed

lemma find_videos_searching:
  assumes "dir_exists env"
    and "can_print env (lit ''Searching for videos in '' @ str_path (videos_dir_of base))"
  shows "find_videos env base =
     ([lit ''Searching for videos in '' @ str_path (videos_dir_of base)],
      find_loop (videos_dir_of base) [] (rglob env))"
  using assms by (simp add: find_videos_def Let_def print_line_def)

lemma find_videos_records:
  assumes "\<forall>segs\<in>set paths. discovered segs" and "dir_exists env"
    and "rglob env = map (below (videos_dir_of base)) paths"
    and "can_print env (lit ''Searching for videos in '' @ str_path (videos_dir_of base))"
  shows "\<exists>videos. snd (find_videos env base) = Inr videos \<and>
           length videos = length (filter qualifies paths) \<and>
           (\<forall>k<length videos.
              video_of (videos_dir_of base) (below (videos_dir_of base) (filter qualifies paths ! k))
                = Inr (Some (videos ! k)))"
  using find_loop_records [OF assms(1), of "videos_dir_of base" "[]"] assms(3)
  by (simp add: find_videos_searching [OF assms(2,4)])

lemma find_videos_not_IndexError:
  assumes "\<forall>segs\<in>set paths. discovered segs"
    and "rglob env = map (below (videos_dir_of base)) paths"
  shows "snd (find_videos env base) \<noteq> Inl IndexError"
proof -
  from find_loop_records [OF assms(1), of "videos_dir_of base" "[]"] assms(2)
  obtain vs where "find_loop (videos_dir_of base) [] (rglob env) = Inr vs" by auto
  then show ?thesis
    by (auto simp: find_videos_def Let_def print_line_def)
qed

text \<open>
  Claim C1. A found file is a path below the videos directory whose last segment is
  \<open>sim.mp4\<close>. When it has at least six segments and \<open>i\<close> is the index of the first
  segment that contains \<open>gpt-5\<close>, the Locator produces a record with
  \<open>scene = segments[1]\<close>, \<open>task = segments[i-1]\<close> (indexed as the language does),
  \<open>model = segments[i]\<close> and \<open>run_id = segments[i+1]\<close>; a file with fewer than six
  segments or without such a segment is skipped. The result of \<open>find_videos\<close> holds
  exactly the records of the qualifying files, in the order in which they were found.
\<close>

theorem locator_extracts_fields:
  assumes "discovered segs"
  shows "(6 \<le> length segs \<and> i < length segs \<and> sublist (lit ''gpt-5'') (segs ! i) \<and>
          (\<forall>j<i. \<not> sublist (lit ''gpt-5'') (segs ! j)) \<longrightarrow>
          (\<exists>v. video_of vd (below vd segs) = Inr (Some v) \<and>
               scene v = segs ! 1 \<and> getitem segs (int i - 1) = Inr (task v) \<and>
               model v = segs ! i \<and> run_id v = segs ! (i + 1) \<and> i + 1 < length segs))
       \<and> (length segs < 6 \<or> (\<forall>s\<in>set segs. \<not> sublist (lit ''gpt-5'') s) \<longrightarrow>
          video_of vd (below vd segs) = Inr None)
       \<and> ((\<forall>p\<in>set paths. discovered p) \<and> dir_exists env \<and>
          rglob env = map (below (videos_dir_of base)) paths \<and>
          can_print env (lit ''Searching for videos in '' @ str_path (videos_dir_of base)) \<longrightarrow>
          (\<exists>videos. snd (find_videos env base) = Inr videos \<and>
             length videos = length (filter qualifies paths) \<and>
             (\<forall>k<length videos.
                video_of (videos_dir_of base)
                  (below (videos_dir_of base) (filter qualifies paths ! k))
                = Inr (Some (videos ! k)))))"
proof (intro conjI impI)
  assume a: "6 \<le> length segs \<and> i < length segs \<and> sublist (lit ''gpt-5'') (segs ! i) \<and>
             (\<forall>j<i. \<not> sublist (lit ''gpt-5'') (segs ! j))"
  then have m: "model_idx_of segs = Some i"
    by (simp add: model_idx_of_def first_index_Some str_in_sublist)
  from a have len: "6 \<le> length segs" by simp
  from video_of_found [OF assms len m, of vd] model_idx_bound [OF assms m]
  show "\<exists>v. video_of vd (below vd segs) = Inr (Some v) \<and>
             scene v = segs ! 1 \<and> getitem segs (int i - 1) = Inr (task v) \<and>
             model v = segs ! i \<and> run_id v = segs ! (i + 1) \<and> i + 1 < length segs"
    by auto
next
  assume "length segs < 6 \<or> (\<forall>s\<in>set segs. \<not> sublist (lit ''gpt-5'') s)"
  then show "video_of vd (below vd segs) = Inr None"
  proof
    assume "length segs < 6"
    then show ?thesis by (simp add: video_of_below)
  next
    assume "\<forall>s\<in>set segs. \<not> sublist (lit ''gpt-5'') s"
    then have "model_idx_of segs = None"
      by (simp add: model_idx_of_def first_index_None str_in_sublist)
    then show ?thesis by (simp add: video_of_below)
  qed
next
  assume "(\<forall>p\<in>set paths. discovered p) \<and> dir_exists env \<and>
          rglob env = map (below (videos_dir_of base)) paths \<and>
          can_print env (lit ''Searching for videos in '' @ str_path (videos_dir_of base))"
  then show "\<exists>videos. snd (find_videos env base) = Inr videos \<and>
             length videos = length (filter qualifies paths) \<and>
             (\<forall>k<length videos.
                video_of (videos_dir_of base)
                  (below (videos_dir_of base) (filter qualifies paths ! k))
                = Inr (Some (videos ! k)))"
    by (intro find_videos_records) simp_all
qed

lemma mixed_tree_facts:
  "dir_exists mixed_tree"
  "rglob mixed_tree = map (below (videos_dir_of project_root))
     [[lit ''a'', lit ''gpt-5'', lit ''run_1'', lit ''sim.mp4''],
      [lit ''set1'', lit ''sceneA'', lit ''taskX'', lit ''gpt-5-2025-08-07'', lit ''run_03'',
       lit ''sim.mp4''],
      [lit ''set1'', lit ''sceneA'', lit ''taskX'', lit ''llama'', lit ''run_1'',
       lit ''sim.mp4'']]"
  by (simp_all add: mixed_tree_def)

lemma can_print_project_root:
  "stdout_encodes env = utf8_strict \<Longrightarrow>
   can_print env (lit ''Searching for videos in '' @ str_path (videos_dir_of project_root))"
  "stdout_encodes env = utf8_strict \<Longrightarrow>
   can_print env (lit ''Videos directory not found at '' @ str_path (videos_dir_of project_root))"
  by (simp_all add: can_print_def utf8_strict_def str_path_def videos_dir_of_def joinpath_def
      project_root_def lit_def)

theorem locator_extracts_fields_witness:
  "discovered [lit ''set1'', lit ''sceneA'', lit ''taskX'', lit ''gpt-5-2025-08-07'', lit ''run_03'', lit ''sim.mp4'']
   \<and> (\<exists>v. video_of (videos_dir_of project_root)
            (below (videos_dir_of project_root)
              [lit ''set1'', lit ''sceneA'', lit ''taskX'', lit ''gpt-5-2025-08-07'', lit ''run_03'', lit ''sim.mp4'']) = Inr (Some v)
         \<and> scene v = lit ''sceneA'' \<and> task v = lit ''taskX'' \<and> model v = lit ''gpt-5-2025-08-07''
         \<and> run_id v = lit ''run_03'')
   \<and> (\<exists>v. snd (find_videos mixed_tree project_root) = Inr [v]
         \<and> scene v = lit ''sceneA'' \<and> task v = lit ''taskX'' \<and> model v = lit ''gpt-5-2025-08-07''
         \<and> run_id v = lit ''run_03'')"
proof -
  let ?segs = "[lit ''set1'', lit ''sceneA'', lit ''taskX'', lit ''gpt-5-2025-08-07'', lit ''run_03'', lit ''sim.mp4'']"
  let ?paths = "[[lit ''a'', lit ''gpt-5'', lit ''run_1'', lit ''sim.mp4''], ?segs,
      [lit ''set1'', lit ''sceneA'', lit ''taskX'', lit ''llama'', lit ''run_1'', lit ''sim.mp4'']]"
  let ?vd = "videos_dir_of project_root"
  have d: "discovered ?segs" by (simp add: discovered_def VIDEO_NAME_def)
  have "first_index (str_in (lit ''gpt-5'')) ?segs = Some 3" by (simp add: lit_def)
  then have h: "6 \<le> length ?segs \<and> 3 < length ?segs \<and> sublist (lit ''gpt-5'') (?segs ! 3) \<and>
          (\<forall>j<3. \<not> sublist (lit ''gpt-5'') (?segs ! j))"
    unfolding first_index_Some str_in_sublist by simp
  have dp: "\<forall>p\<in>set ?paths. discovered p" by (simp add: discovered_def VIDEO_NAME_def)
  have cp: "can_print mixed_tree (lit ''Searching for videos in '' @ str_path ?vd)"
    by (rule can_print_project_root) (simp add: mixed_tree_def)
  have q: "filter qualifies ?paths = [?segs]"
    by (simp add: qualifies_def str_in_sublist [symmetric] lit_def)
  note inst = locator_extracts_fields [where segs = "?segs" and i = 3 and vd = "?vd"
      and paths = "?paths" and env = mixed_tree and base = project_root, OF d]
  from inst h obtain v where v: "video_of ?vd (below ?vd ?segs) = Inr (Some v)"
     "scene v = ?segs ! 1" "getitem ?segs (int 3 - 1) = Inr (task v)" "model v = ?segs ! 3"
     "run_id v = ?segs ! (3 + 1)"
    by blast
  from v(3) have t: "task v = lit ''taskX''" by (simp add: getitem_def)
  from inst dp mixed_tree_facts cp
  obtain videos where vs: "snd (find_videos mixed_tree project_root) = Inr videos"
    and l: "length videos = length (filter qualifies ?paths)"
    and r: "\<forall>k<length videos. video_of ?vd (below ?vd (filter qualifies ?paths ! k))
              = Inr (Some (videos ! k))"
    by blast
  from l q have l1: "length videos = 1" by simp
  with r q v(1) have "videos ! 0 = v" by simp
  with l1 have "videos = [v]" by (cases videos) simp_all
  with vs d v t show ?thesis by auto
qed

text \<open>
  Claim C9. For every discovered path (last segment \<open>sim.mp4\<close>, which does not contain
  \<open>gpt-5\<close>) the index \<open>i\<close> of the first segment containing \<open>gpt-5\<close> satisfies
  \<open>i + 1 < len(segments)\<close> and the lookup \<open>segments[i+1]\<close> succeeds, so
  \<open>find_videos\<close> never raises \<open>IndexError\<close>; it returns a list whenever its message
  can be printed.
\<close>

theorem run_id_index_in_bounds:
  assumes "\<forall>segs\<in>set paths. discovered segs"
    and "rglob env = map (below (videos_dir_of base)) paths"
  shows "(\<forall>segs\<in>set paths. \<forall>i. model_idx_of segs = Some i \<longrightarrow>
            i + 1 < length segs \<and> getitem segs (int i + 1) = Inr (segs ! (i + 1)))
       \<and> \<not> str_in (lit ''gpt-5'') VIDEO_NAME
       \<and> snd (find_videos env base) \<noteq> Inl IndexError
       \<and> (can_print env
            ((if dir_exists env then lit ''Searching for videos in ''
              else lit ''Videos directory not found at '') @ str_path (videos_dir_of base)) \<longrightarrow>
          (\<exists>videos. snd (find_videos env base) = Inr videos))"
proof (intro conjI ballI allI impI)
  fix segs i
  assume "segs \<in> set paths" and m: "model_idx_of segs = Some i"
  with assms(1) have "discovered segs" by simp
  from model_idx_bound [OF this m] show "i + 1 < length segs" .
  then show "getitem segs (int i + 1) = Inr (segs ! (i + 1))"
    using getitem_nat [of "i + 1" segs] by (simp add: add.commute)
next
  show "\<not> str_in (lit ''gpt-5'') VIDEO_NAME" by (rule gpt5_not_in_VIDEO_NAME)
next
  show "snd (find_videos env base) \<noteq> Inl IndexError"
    using assms by (rule find_videos_not_IndexError)
next
  assume c: "can_print env
            ((if dir_exists env then lit ''Searching for videos in ''
              else lit ''Videos directory not found at '') @ str_path (videos_dir_of base))"
  from find_loop_records [OF assms(1), of "videos_dir_of base" "[]"] assms(2)
  obtain vs where "find_loop (videos_dir_of base) [] (rglob env) = Inr vs" by auto
  with c show "\<exists>videos. snd (find_videos env base) = Inr videos"
    by (cases "dir_exists env") (simp_all add: find_videos_def Let_def print_line_def)
qed

theorem run_id_index_in_bounds_witness:
  "discovered [lit ''a'', lit ''b'', lit ''c'', lit ''d'', lit ''gpt-5'', lit ''sim.mp4'']
   \<and> model_idx_of [lit ''a'', lit ''b'', lit ''c'', lit ''d'', lit ''gpt-5'', lit ''sim.mp4''] = Some 4
   \<and> getitem [lit ''a'', lit ''b'', lit ''c'', lit ''d'', lit ''gpt-5'', lit ''sim.mp4''] (int 4 + 1)
       = Inr (lit ''sim.mp4'')
   \<and> (\<exists>videos. snd (find_videos
         \<lparr>dir_exists = True,
          rglob = map (below (videos_dir_of project_root))
                    [[lit ''a'', lit ''b'', lit ''c'', lit ''d'', lit ''gpt-5'', lit ''sim.mp4'']],
          writable = (\<lambda>p. True), stdout_encodes = utf8_strict\<rparr> project_root) = Inr videos)"
proof -
  let ?segs = "[lit ''a'', lit ''b'', lit ''c'', lit ''d'', lit ''gpt-5'', lit ''sim.mp4'']"
  let ?env = "\<lparr>dir_exists = True,
          rglob = map (below (videos_dir_of project_root)) [?segs],
          writable = (\<lambda>p. True), stdout_encodes = utf8_strict\<rparr>"
  have d: "\<forall>segs\<in>set [?segs]. discovered segs" by (simp add: discovered_def VIDEO_NAME_def)
  have r: "rglob ?env = map (below (videos_dir_of project_root)) [?segs]" by simp
  have m: "model_idx_of ?segs = Some 4"
    by (simp add: model_idx_of_def lit_def)
  have c: "can_print ?env (lit ''Searching for videos in '' @ str_path (videos_dir_of project_root))"
    by (rule can_print_project_root) simp
  from run_id_index_in_bounds [OF d r] d m c show ?thesis by simp
qed

text \<open>
  Claim C10, as amended. When the first segment of a discovered path with at least six
  segments contains \<open>gpt-5\<close>, the file is not skipped: the result of \<open>find_videos\<close>
  holds its record, whose task is the last segment, the file name \<open>sim.mp4\<close>, by the
  negative index \<open>segments[-1]\<close>; the scene is \<open>segments[1]\<close> and the model
  \<open>segments[0]\<close>.
\<close>

theorem model_in_first_segment_wraps:
  assumes "discovered segs" and "6 \<le> length segs" and "sublist (lit ''gpt-5'') (segs ! 0)"
  shows "(\<exists>v. video_of vd (below vd segs) = Inr (Some v) \<and> task v = last segs \<and>
             task v = VIDEO_NAME \<and> scene v = segs ! 1 \<and> model v = segs ! 0)
       \<and> ((\<forall>p\<in>set paths. discovered p) \<and> segs \<in> set paths \<and> dir_exists env \<and>
          rglob env = map (below (videos_dir_of base)) paths \<and>
          can_print env (lit ''Searching for videos in '' @ str_path (videos_dir_of base)) \<longrightarrow>
          (\<exists>videos. snd (find_videos env base) = Inr videos \<and>
             (\<exists>v\<in>set videos.
                video_of (videos_dir_of base) (below (videos_dir_of base) segs) = Inr (Some v) \<and>
                task v = VIDEO_NAME \<and> scene v = segs ! 1 \<and> model v = segs ! 0)))"
proof -
  from assms(2) have ne: "segs \<noteq> []" by auto
  with assms(3) have m: "model_idx_of segs = Some 0"
    by (simp add: model_idx_of_def first_index_Some str_in_sublist)
  have rec: "\<exists>v. video_of d (below d segs) = Inr (Some v) \<and> task v = last segs \<and>
             task v = VIDEO_NAME \<and> scene v = segs ! 1 \<and> model v = segs ! 0" for d
  proof -
    from video_of_found [OF assms(1,2) m, of d]
    obtain v where v: "video_of d (below d segs) = Inr (Some v)" "scene v = segs ! 1"
      "getitem segs (int 0 - 1) = Inr (task v)" "model v = segs ! 0"
      by blast
    from v(3) ne have "task v = last segs" by (simp add: getitem_minus_one)
    moreover from assms(1) have "last segs = VIDEO_NAME" by (simp add: discovered_def)
    ultimately show ?thesis using v by auto
  qed
  have q: "qualifies segs" using assms(2) m by (simp add: qualifies_iff)
  show ?thesis
  proof (intro conjI impI)
    show "\<exists>v. video_of vd (below vd segs) = Inr (Some v) \<and> task v = last segs \<and>
             task v = VIDEO_NAME \<and> scene v = segs ! 1 \<and> model v = segs ! 0"
      by (rule rec)
  next
    let ?d = "videos_dir_of base"
    assume a: "(\<forall>p\<in>set paths. discovered p) \<and> segs \<in> set paths \<and> dir_exists env \<and>
          rglob env = map (below ?d) paths \<and>
          can_print env (lit ''Searching for videos in '' @ str_path ?d)"
    then obtain videos where vs: "snd (find_videos env base) = Inr videos"
      and l: "length videos = length (filter qualifies paths)"
      and r: "\<forall>k<length videos. video_of ?d (below ?d (filter qualifies paths ! k))
                = Inr (Some (videos ! k))"
      using find_videos_records [of paths env base] by blast
    from a q have "segs \<in> set (filter qualifies paths)" by simp
    then obtain k where k: "k < length (filter qualifies paths)"
      and e: "filter qualifies paths ! k = segs"
      by (metis in_set_conv_nth)
    from r k l e have vk: "video_of ?d (below ?d segs) = Inr (Some (videos ! k))" by auto
    from rec [of ?d] vk have "task (videos ! k) = VIDEO_NAME \<and> scene (videos ! k) = segs ! 1 \<and>
        model (videos ! k) = segs ! 0" by auto
    moreover from k l have "videos ! k \<in> set videos" by simp
    ultimately show "\<exists>videos. snd (find_videos env base) = Inr videos \<and>
             (\<exists>v\<in>set videos. video_of ?d (below ?d segs) = Inr (Some v) \<and>
                task v = VIDEO_NAME \<and> scene v = segs ! 1 \<and> model v = segs ! 0)"
      using vs vk by blast
  qed
qed

theorem model_in_first_segment_wraps_witness:
  "discovered [lit ''gpt-5-mini'', lit ''b'', lit ''c'', lit ''d'', lit ''e'', lit ''sim.mp4'']
   \<and> 6 \<le> length [lit ''gpt-5-mini'', lit ''b'', lit ''c'', lit ''d'', lit ''e'', lit ''sim.mp4'']
   \<and> sublist (lit ''gpt-5'') ([lit ''gpt-5-mini'', lit ''b'', lit ''c'', lit ''d'', lit ''e'', lit ''sim.mp4''] ! 0)
   \<and> (\<exists>videos v. snd (find_videos model_first_tree project_root) = Inr videos
         \<and> v \<in> set videos
         \<and> task v = lit ''sim.mp4'' \<and> scene v = lit ''b'' \<and> model v = lit ''gpt-5-mini'')"
proof -
  let ?segs = "[lit ''gpt-5-mini'', lit ''b'', lit ''c'', lit ''d'', lit ''e'', lit ''sim.mp4'']"
  have d: "discovered ?segs" by (simp add: discovered_def VIDEO_NAME_def)
  have l: "6 \<le> length ?segs" by simp
  have "str_in (lit ''gpt-5'') (lit ''gpt-5-mini'')" by (simp add: lit_def)
  then have s: "sublist (lit ''gpt-5'') (?segs ! 0)" by (simp add: str_in_sublist)
  have dp: "\<forall>p\<in>set [?segs]. discovered p" using d by simp
  have e: "dir_exists model_first_tree"
    "rglob model_first_tree = map (below (videos_dir_of project_root)) [?segs]"
    by (simp_all add: model_first_tree_def)
  have c: "can_print model_first_tree
      (lit ''Searching for videos in '' @ str_path (videos_dir_of project_root))"
    by (rule can_print_project_root) (simp add: model_first_tree_def)
  have pre: "(\<forall>p\<in>set [?segs]. discovered p) \<and> ?segs \<in> set [?segs] \<and>
      dir_exists model_first_tree \<and>
      rglob model_first_tree = map (below (videos_dir_of project_root)) [?segs] \<and>
      can_print model_first_tree
        (lit ''Searching for videos in '' @ str_path (videos_dir_of project_root))"
    using dp e c by simp
  from model_in_first_segment_wraps [where segs = "?segs" and paths = "[?segs]"
      and env = model_first_tree and base = project_root, OF d l s, THEN conjunct2, THEN mp, OF pre]
  obtain videos v where "snd (find_videos model_first_tree project_root) = Inr videos"
    "v \<in> set videos" "task v = VIDEO_NAME" "scene v = ?segs ! 1" "model v = ?segs ! 0"
    by blast
  with d l s show ?thesis by (auto simp: VIDEO_NAME_def)
qed

text \<open>
  Against claim C10 as stated: a discovered path of five segments whose first segment
  contains \<open>gpt-5\<close> is skipped, because the test on the number of segments comes before
  the search for the model segment; the Locator returns no record.
\<close>

theorem short_path_skipped_counterexample:
  "discovered [lit ''gpt-5-mini'', lit ''b'', lit ''c'', lit ''d'', lit ''sim.mp4'']
   \<and> str_in (lit ''gpt-5'') ([lit ''gpt-5-mini'', lit ''b'', lit ''c'', lit ''d'', lit ''sim.mp4''] ! 0)
   \<and> video_of (videos_dir_of project_root)
        (below (videos_dir_of project_root)
          [lit ''gpt-5-mini'', lit ''b'', lit ''c'', lit ''d'', lit ''sim.mp4'']) = Inr None
   \<and> snd (find_videos model_first_short_tree project_root) = Inr []"
proof -
  let ?segs = "[lit ''gpt-5-mini'', lit ''b'', lit ''c'', lit ''d'', lit ''sim.mp4'']"
  have d: "discovered ?segs" by (simp add: discovered_def VIDEO_NAME_def)
  have s: "str_in (lit ''gpt-5'') (?segs ! 0)" by (simp add: lit_def)
  have v: "video_of (videos_dir_of project_root) (below (videos_dir_of project_root) ?segs)
      = Inr None"
    by (simp add: video_of_below)
  have c: "can_print model_first_short_tree
      (lit ''Searching for videos in '' @ str_path (videos_dir_of project_root))"
    by (rule can_print_project_root) (simp add: model_first_short_tree_def)
  have e: "dir_exists model_first_short_tree" by (simp add: model_first_short_tree_def)
  have "snd (find_videos model_first_short_tree project_root) = Inr []"
    by (simp add: find_videos_searching [OF e c]) (simp add: model_first_short_tree_def v)
  with d s v show ?thesis by simp
qed

lemma decimal_ascii:
  "c < 128 \<Longrightarrow> decimal c = (if is_ascii_digit c then Some (c - 0x30) else None)"
  by (simp add: decimal_def nd_starts_def is_ascii_digit_def)

lemma is_decimal_ascii: "c < 128 \<Longrightarrow> is_decimal c = is_ascii_digit c"
  by (simp add: is_decimal_def decimal_ascii)

lemma digit_val_ascii: "c < 128 \<Longrightarrow> is_ascii_digit c \<Longrightarrow> digit_val c = c - 0x30"
  by (simp add: digit_val_def decimal_ascii)

lemma iter_num_of_no_digit: "\<forall>c\<in>set s. \<not> is_decimal c \<Longrightarrow> iter_num_of s = Inr 0"
proof -
  assume "\<forall>c\<in>set s. \<not> is_decimal c"
  then have "ITER_RE_search s = None" by (simp add: ITER_RE_search_None)
  then show ?thesis by (simp add: iter_num_of_def bind_err_def)
qed

lemma iter_num_of_search:
  "ITER_RE_search s = Some g \<Longrightarrow> iter_num_of s = Inr (decimal_number g)"
proof -
  assume a: "ITER_RE_search s = Some g"
  from ITER_RE_search_Some [OF a] have "py_int g = Inr (decimal_number g)"
    by (simp add: py_int_digits)
  with a show ?thesis by (simp add: iter_num_of_def bind_err_def)
qed

lemma ITER_RE_search_ascii:
  assumes "\<forall>c\<in>set s. c < 128"
  shows "ITER_RE_search s = (if list_ex is_ascii_digit s then Some (first_ascii_run s) else None)"
proof -
  have eq: "\<And>c. c \<in> set s \<Longrightarrow> is_decimal c = is_ascii_digit c"
    using assms by (simp add: is_decimal_ascii)
  then have d: "dropWhile (\<lambda>c. \<not> is_decimal c) s = dropWhile (\<lambda>c. \<not> is_ascii_digit c) s"
    by (intro dropWhile_cong) simp_all
  show ?thesis
  proof (cases "list_ex is_ascii_digit s")
    case False
    then have "\<forall>c\<in>set s. \<not> is_decimal c" using eq by (simp add: list_ex_iff)
    with False show ?thesis by (simp add: ITER_RE_search_None)
  next
    case True
    define t where "t = dropWhile (\<lambda>c. \<not> is_ascii_digit c) s"
    from True have "t \<noteq> []" by (auto simp: t_def list_ex_iff)
    then obtain c cs where t: "t = c # cs" by (cases t) auto
    have "set t \<subseteq> set s" unfolding t_def by (auto dest: set_dropWhileD)
    then have "takeWhile is_decimal t = takeWhile is_ascii_digit t"
      using eq by (intro takeWhile_cong) auto
    with True d t show ?thesis
      by (simp add: ITER_RE_search_def first_ascii_run_def t_def [symmetric])
  qed
qed

text \<open>
  Claim C3, as amended. The digits of the run identifier are the Unicode decimal digits,
  the class \<open>\d\<close> of the pattern: the iteration number is 0 when the string has none,
  and otherwise the base-ten value of the first maximal run of them; for a run
  identifier of ASCII characters this is the value of the first maximal run of ASCII
  digits, as the specification has it. The record's \<open>iter_num\<close> is this number of its
  \<open>run_id\<close>.
\<close>

theorem iter_number_first_decimal_run:
  "((\<forall>c\<in>set s. \<not> is_decimal c) \<longrightarrow> iter_num_of s = Inr 0)
   \<and> ((\<forall>c\<in>set pre. \<not> is_decimal c) \<and> run \<noteq> [] \<and> (\<forall>c\<in>set run. is_decimal c) \<and>
       (post = [] \<or> \<not> is_decimal (hd post)) \<longrightarrow>
       iter_num_of (pre @ run @ post) = Inr (decimal_number run))
   \<and> ((\<forall>c\<in>set s. c < 128) \<longrightarrow> iter_num_of s = Inr (spec_iter_number s))
   \<and> (video_of vd p = Inr (Some v) \<longrightarrow> iter_num_of (run_id v) = Inr (iter_num v))"
proof (intro conjI impI)
  assume "\<forall>c\<in>set s. \<not> is_decimal c"
  then show "iter_num_of s = Inr 0" by (rule iter_num_of_no_digit)
next
  assume "(\<forall>c\<in>set pre. \<not> is_decimal c) \<and> run \<noteq> [] \<and> (\<forall>c\<in>set run. is_decimal c) \<and>
       (post = [] \<or> \<not> is_decimal (hd post))"
  then have "ITER_RE_search (pre @ run @ post) = Some run"
    by (intro ITER_RE_search_run) simp_all
  then show "iter_num_of (pre @ run @ post) = Inr (decimal_number run)"
    by (rule iter_num_of_search)
next
  assume a: "\<forall>c\<in>set s. c < 128"
  show "iter_num_of s = Inr (spec_iter_number s)"
  proof (cases "list_ex is_ascii_digit s")
    case False
    with a have "ITER_RE_search s = None" by (simp add: ITER_RE_search_ascii)
    then have "iter_num_of s = Inr 0" by (simp add: iter_num_of_def bind_err_def)
    with False show ?thesis by (simp add: spec_iter_number_def)
  next
    case True
    with a have "ITER_RE_search s = Some (first_ascii_run s)" by (simp add: ITER_RE_search_ascii)
    then have i: "iter_num_of s = Inr (decimal_number (first_ascii_run s))"
      by (rule iter_num_of_search)
    have "set (first_ascii_run s) \<subseteq> set s"
      unfolding first_ascii_run_def by (auto dest!: set_takeWhileD set_dropWhileD)
    moreover have "\<forall>c\<in>set (first_ascii_run s). is_ascii_digit c"
      unfolding first_ascii_run_def by (auto dest: set_takeWhileD)
    ultimately have "map digit_val (first_ascii_run s) = map (\<lambda>c. c - 0x30) (first_ascii_run s)"
      using a by (intro map_cong) (auto simp: digit_val_ascii)
    with i True show ?thesis by (simp add: spec_iter_number_def decimal_number_def)
  qed
next
  assume a: "video_of vd p = Inr (Some v)"
  then show "iter_num_of (run_id v) = Inr (iter_num v)"
    by (auto simp: video_of_def Let_def bind_err_def split: if_splits option.splits sum.splits)
qed

theorem iter_number_first_decimal_run_witness:
  "list_all (\<lambda>c. c < 128) (lit ''run_03b7'')
   \<and> iter_num_of (lit ''run_03b7'') = Inr 3
   \<and> list_all (\<lambda>c. \<not> is_decimal c) (lit ''warmup'') \<and> iter_num_of (lit ''warmup'') = Inr 0
   \<and> iter_num_of (lit ''run_'' @ [0x663, 0x31] @ lit ''b7'') = Inr 31"
proof -
  have a: "\<forall>c\<in>set (lit ''run_03b7''). c < 128" by (simp add: lit_def)
  have n: "\<forall>c\<in>set (lit ''warmup''). \<not> is_decimal c"
    by (simp add: lit_def is_decimal_ascii is_ascii_digit_def)
  have r: "(\<forall>c\<in>set (lit ''run_''). \<not> is_decimal c) \<and> [0x663, 0x31] \<noteq> [] \<and>
           (\<forall>c\<in>set [0x663, 0x31]. is_decimal c) \<and>
           (lit ''b7'' = [] \<or> \<not> is_decimal (hd (lit ''b7'')))"
    by (simp add: lit_def is_decimal_def decimal_def nd_starts_def)
  have s: "spec_iter_number (lit ''run_03b7'') = 3"
    by (simp add: spec_iter_number_def first_ascii_run_def is_ascii_digit_def lit_def)
  have d: "decimal_number [0x663, 0x31] = 31"
    by (simp add: decimal_number_def digit_val_def decimal_def nd_starts_def)
  from iter_number_first_decimal_run [of "lit ''run_03b7''" "lit ''run_''" "[0x663, 0x31]" "lit ''b7''"]
    iter_number_first_decimal_run [of "lit ''warmup''"] a n r s d
  show ?thesis by (simp add: list_all_iff)
qed

text \<open>
  Against claim C3 as stated: the run identifier U+0663 \<open>x\<close> \<open>1\<close> contains the ASCII
  digit \<open>1\<close>, whose run has the value 1, but its iteration number is 3, the value of
  the Arabic-Indic digit three that comes first.
\<close>

theorem iter_number_ascii_run_counterexample:
  "list_ex is_ascii_digit [0x663, 0x78, 0x31]
   \<and> spec_iter_number [0x663, 0x78, 0x31] = 1
   \<and> iter_num_of [0x663, 0x78, 0x31] = Inr 3"
  by (simp add: spec_iter_number_def first_ascii_run_def is_ascii_digit_def iter_num_of_def
      ITER_RE_search_def is_decimal_def decimal_def nd_starts_def py_int_def bind_err_def)

section \<open>Properties of the Aggregator\<close>

lemma map_of_dict_append:
  "map_of (dict_append k v g) k' =
     (if k' = k then Some ((case map_of g k of None \<Rightarrow> [] | Some vs \<Rightarrow> vs) @ [v])
      else map_of g k')"
  by (induction g) auto

lemma keys_dict_append:
  "map fst (dict_append k v g) = (if k \<in> set (map fst g) then map fst g else map fst g @ [k])"
  by (induction g) force+

lemma distinct_dict_append:
  "distinct (map fst g) \<Longrightarrow> distinct (map fst (dict_append k v g))"
  by (simp add: keys_dict_append)

lemma map_of_group_fold:
  "map_of (foldl (\<lambda>grouped v. dict_append (f v) v grouped) g vs) k =
     (if map_of g k = None \<and> filter (\<lambda>v. f v = k) vs = [] then None
      else Some ((case map_of g k of None \<Rightarrow> [] | Some xs \<Rightarrow> xs) @ filter (\<lambda>v. f v = k) vs))"
proof (induction vs arbitrary: g)
  case Nil
  show ?case by (cases "map_of g k") simp_all
next
  case (Cons v vs)
  show ?case
    unfolding foldl_Cons Cons.IH
    by (cases "map_of g k") (simp_all add: map_of_dict_append)
qed

lemma distinct_group_fold:
  "distinct (map fst g) \<Longrightarrow>
   distinct (map fst (foldl (\<lambda>grouped v. dict_append (f v) v grouped) g vs))"
  by (induction vs arbitrary: g) (simp_all add: distinct_dict_append)

lemma map_of_group_loop:
  "map_of (group_loop videos) k =
     (if filter (\<lambda>v. (task v, model v) = k) videos = [] then None
      else Some (filter (\<lambda>v. (task v, model v) = k) videos))"
  unfolding group_loop_def by (simp add: map_of_group_fold)

lemma distinct_group_loop: "distinct (map fst (group_loop videos))"
  unfolding group_loop_def by (rule distinct_group_fold) simp

lemma map_of_group_by_task_model:
  "map_of (group_by_task_model videos) k =
     (if filter (\<lambda>v. (task v, model v) = k) videos = [] then None
      else Some (sort_and_cut (filter (\<lambda>v. (task v, model v) = k) videos)))"
  unfolding group_by_task_model_def by (simp add: map_of_map map_of_group_loop)

lemma keys_group_by_task_model:
  "map fst (group_by_task_model videos) = map fst (group_loop videos)"
  unfolding group_by_task_model_def by (simp add: case_prod_unfold comp_def)

lemma distinct_group_by_task_model: "distinct (map fst (group_by_task_model videos))"
  by (simp add: keys_group_by_task_model distinct_group_loop)

text \<open>
  Claim C2. The group of a pair \<open>(task, model)\<close> that occurs in the input holds the
  records of that pair. Sorted by \<open>(iter_num, path)\<close>, a group of exactly six records
  is cut to its first five; a group of any other size, also of more than six, is the
  sorted list unchanged. Pairs that do not occur have no group, and the sorted list is
  the ascending rearrangement of the group's records.
\<close>

theorem six_members_keep_first_five:
  "(members = filter (\<lambda>v. (task v, model v) = k) videos \<and> members \<noteq> [] \<longrightarrow>
      (length members = 6 \<longrightarrow>
         map_of (group_by_task_model videos) k = Some (take 5 (sort_key video_key members)))
    \<and> (length members \<noteq> 6 \<longrightarrow>
         map_of (group_by_task_model videos) k = Some (sort_key video_key members)))
   \<and> (filter (\<lambda>v. (task v, model v) = k) videos = [] \<longrightarrow>
         map_of (group_by_task_model videos) k = None)
   \<and> distinct (map fst (group_by_task_model videos))
   \<and> sorted (map video_key (sort_key video_key members))
   \<and> mset (sort_key video_key members) = mset members"
  by (simp add: map_of_group_by_task_model sort_and_cut_def Let_def distinct_group_by_task_model)

theorem six_members_keep_first_five_witness:
  "six_clips = filter (\<lambda>v. (task v, model v) = (lit ''taskX'', lit ''gpt-5'')) six_clips
   \<and> six_clips \<noteq> [] \<and> length six_clips = 6
   \<and> map_of (group_by_task_model six_clips) (lit ''taskX'', lit ''gpt-5'')
       = Some [clip [] 0 (lit ''a''), clip [] 1 (lit ''b''), clip [] 2 (lit ''c''),
               clip [] 3 (lit ''d''), clip [] 4 (lit ''e'')]
   \<and> length seven_clips \<noteq> 6
   \<and> map_of (group_by_task_model seven_clips) (lit ''taskX'', lit ''gpt-5'')
       = Some [clip [] 0 (lit ''a''), clip [] 1 (lit ''b''), clip [] 2 (lit ''c''),
               clip [] 3 (lit ''d''), clip [] 4 (lit ''e''), clip [] 5 (lit ''f''),
               clip [] 6 (lit ''g'')]
   \<and> filter (\<lambda>v. (task v, model v) = (lit ''taskY'', lit ''gpt-5'')) six_clips = []
   \<and> map_of (group_by_task_model six_clips) (lit ''taskY'', lit ''gpt-5'') = None"
proof -
  let ?k = "(lit ''taskX'', lit ''gpt-5'')"
  have f6: "six_clips = filter (\<lambda>v. (task v, model v) = ?k) six_clips \<and> six_clips \<noteq> []"
    by (simp add: six_clips_def clip_def)
  have l6: "length six_clips = 6" by (simp add: six_clips_def)
  have s6: "take 5 (sort_key video_key six_clips) =
      [clip [] 0 (lit ''a''), clip [] 1 (lit ''b''), clip [] 2 (lit ''c''),
       clip [] 3 (lit ''d''), clip [] 4 (lit ''e'')]"
    by (simp add: six_clips_def video_key_def clip_def lit_def)
  have f7: "seven_clips = filter (\<lambda>v. (task v, model v) = ?k) seven_clips \<and> seven_clips \<noteq> []"
    by (simp add: seven_clips_def six_clips_def clip_def)
  have l7: "length seven_clips \<noteq> 6" by (simp add: seven_clips_def six_clips_def)
  have s7: "sort_key video_key seven_clips =
      [clip [] 0 (lit ''a''), clip [] 1 (lit ''b''), clip [] 2 (lit ''c''),
       clip [] 3 (lit ''d''), clip [] 4 (lit ''e''), clip [] 5 (lit ''f''),
       clip [] 6 (lit ''g'')]"
    by (simp add: seven_clips_def six_clips_def video_key_def clip_def lit_def)
  have n: "filter (\<lambda>v. (task v, model v) = (lit ''taskY'', lit ''gpt-5'')) six_clips = []"
    by (simp add: six_clips_def clip_def lit_def)
  from six_members_keep_first_five [of six_clips ?k six_clips] f6 l6 s6
  have a: "map_of (group_by_task_model six_clips) ?k =
      Some [clip [] 0 (lit ''a''), clip [] 1 (lit ''b''), clip [] 2 (lit ''c''),
            clip [] 3 (lit ''d''), clip [] 4 (lit ''e'')]"
    by simp
  from six_members_keep_first_five [of seven_clips ?k seven_clips] f7 l7 s7
  have b: "map_of (group_by_task_model seven_clips) ?k =
      Some [clip [] 0 (lit ''a''), clip [] 1 (lit ''b''), clip [] 2 (lit ''c''),
            clip [] 3 (lit ''d''), clip [] 4 (lit ''e''), clip [] 5 (lit ''f''),
            clip [] 6 (lit ''g'')]"
    by simp
  from six_members_keep_first_five [of "[]" "(lit ''taskY'', lit ''gpt-5'')" six_clips] n
  have c: "map_of (group_by_task_model six_clips) (lit ''taskY'', lit ''gpt-5'') = None"
    by simp
  from f6 l6 a l7 b n c show ?thesis by simp
qed

lemma sort_key_inj_mset:
  assumes "mset as = mset bs" and "inj_on f (set as)"
  shows "sort_key f as = sort_key f bs"
proof (rule properties_for_sort_key)
  show "mset (sort_key f bs) = mset as" using assms(1) by simp
next
  show "sorted (map f (sort_key f bs))" by (rule sorted_sort_key)
next
  fix k
  assume "k \<in> set (sort_key f bs)"
  then have "k \<in> set bs" by simp
  moreover have s: "set bs = set as" using assms(1) by (rule mset_eq_setD [symmetric])
  ultimately have k: "k \<in> set as" by simp
  have eq: "filter (\<lambda>x. f k = f x) zs = filter (HOL.eq k) zs" if "set zs = set as" for zs
  proof (rule filter_cong [OF refl])
    fix x
    assume "x \<in> set zs"
    with that have "x \<in> set as" by simp
    with k assms(2) show "(f k = f x) = (k = x)" by (auto dest: inj_onD)
  qed
  have st: "filter (\<lambda>x. f k = f x) (sort_key f bs) = filter (\<lambda>x. f k = f x) bs"
  proof -
    have "(\<lambda>x. f k = f x) = (\<lambda>y. f y = f k)" by (rule ext) (rule eq_commute)
    then show ?thesis by (simp only: sort_key_stable)
  qed
  have c: "count (mset bs) k = count (mset as) k" using assms(1) by simp
  have "filter (\<lambda>x. f k = f x) bs = replicate (count (mset bs) k) k"
    by (simp only: eq [OF s] replicate_count_mset_eq_filter_eq)
  also have "\<dots> = filter (\<lambda>x. f k = f x) as"
    by (simp only: c eq [OF refl] replicate_count_mset_eq_filter_eq)
  finally show "filter (\<lambda>x. f k = f x) (sort_key f bs) = filter (\<lambda>x. f k = f x) as"
    using st by simp
qed

lemma sorted_sort_and_cut: "sorted (map video_key (sort_and_cut vs))"
proof -
  have "sorted (map video_key (sort_key video_key vs))" by (rule sorted_sort_key)
  then have "sorted (take 5 (map video_key (sort_key video_key vs)))" by (rule sorted_wrt_take)
  then have "sorted (map video_key (take 5 (sort_key video_key vs)))" by (simp only: take_map)
  then show ?thesis by (simp add: sort_and_cut_def Let_def)
qed

lemma video_key_le:
  "video_key a \<le> video_key b \<longleftrightarrow>
     iter_num a < iter_num b \<or> (iter_num a = iter_num b \<and> path a \<le> path b)"
  by (auto simp: video_key_def less_eq_prod_def)

lemma group_sorted:
  assumes "map_of (group_by_task_model videos) k = Some vids"
  shows "sorted (map video_key vids)"
  using assms by (auto simp: map_of_group_by_task_model sorted_sort_and_cut split: if_splits)

section \<open>Properties of the Renderer\<close>

lemma tasks_of_Nil: "tasks_of grouped = [] \<longleftrightarrow> grouped = []"
proof -
  have "set (tasks_of grouped) = (\<lambda>(k, vids). fst k) ` set grouped"
    by (simp add: tasks_of_def)
  then show ?thesis by (metis empty_set image_is_empty set_empty)
qed

lemma dict_get_models_by_task:
  "t \<in> set (tasks_of grouped) \<Longrightarrow> \<exists>ms. dict_get (models_by_task_of grouped) t = Inr ms"
proof -
  assume t: "t \<in> set (tasks_of grouped)"
  have "map_of (map (\<lambda>t. (t, f t)) ts) t = Some (f t)" if "t \<in> set ts" for f :: "pystr \<Rightarrow> pystr list" and ts
    using that by (induction ts) auto
  from this [OF t] show ?thesis by (simp add: dict_get_def models_by_task_of_def)
qed

lemma render_lines_Nil: "render_lines [] = Inl IndexError"
  by (simp add: render_lines_def tasks_of_def getitem_def bind_err_def)

lemma render_lines_nonempty:
  assumes "grouped \<noteq> []"
  shows "\<exists>ms. dict_get (models_by_task_of grouped) (hd (tasks_of grouped)) = Inr ms \<and>
    render_lines grouped =
      Inr (head_lines @ task_select_open @ map option_line (tasks_of grouped) @ select_close
           @ model_select_open @ map option_line ms @ select_close @ controls_close
           @ concat (map section_lines (sorted_items grouped))
           @ script_lines (models_by_task_of grouped) @ closing_lines)"
proof -
  from assms have ne: "tasks_of grouped \<noteq> []" by (simp add: tasks_of_Nil)
  then have g: "getitem (tasks_of grouped) 0 = Inr (hd (tasks_of grouped))"
    by (simp add: getitem_def hd_conv_nth)
  from ne have "hd (tasks_of grouped) \<in> set (tasks_of grouped)" by simp
  from dict_get_models_by_task [OF this]
  obtain ms where ms: "dict_get (models_by_task_of grouped) (hd (tasks_of grouped)) = Inr ms"
    by blast
  with g show ?thesis by (simp add: render_lines_def Let_def bind_err_def)
qed

lemma group_by_task_model_Nil: "group_by_task_model videos = [] \<longleftrightarrow> videos = []"
proof
  assume e: "group_by_task_model videos = []"
  show "videos = []"
  proof (rule ccontr)
    assume "videos \<noteq> []"
    then obtain v vs where v: "videos = v # vs" by (cases videos) auto
    then have "filter (\<lambda>x. (task x, model x) = (task v, model v)) videos \<noteq> []" by simp
    then have "map_of (group_by_task_model videos) (task v, model v) \<noteq> None"
      by (simp add: map_of_group_by_task_model)
    with e show False by simp
  qed
next
  assume "videos = []"
  then show "group_by_task_model videos = []"
    by (simp add: group_by_task_model_def group_loop_def)
qed

text \<open>
  Claim C4, as amended. Applied to an empty grouping the Renderer fails: the task list
  is empty and \<open>tasks[0]\<close>, read to build the initial model list, raises
  \<open>IndexError\<close>; no document is produced. The empty grouping is the only one on which
  it fails: for every other grouping it returns a document. The program does not reach
  the failure, because \<open>main\<close> renders the grouping of a non-empty record list only,
  which is not empty.
\<close>

theorem render_fails_only_on_empty_grouping:
  "(render_html grouped = Inl IndexError \<longleftrightarrow> grouped = [])
   \<and> (grouped \<noteq> [] \<longrightarrow> (\<exists>doc. render_html grouped = Inr doc))
   \<and> (videos \<noteq> [] \<longrightarrow> group_by_task_model videos \<noteq> [])"
proof (intro conjI impI)
  show "render_html grouped = Inl IndexError \<longleftrightarrow> grouped = []"
  proof (cases "grouped = []")
    case True
    then show ?thesis by (simp add: render_html_def render_lines_Nil)
  next
    case False
    from render_lines_nonempty [OF False] False show ?thesis
      by (auto simp: render_html_def)
  qed
next
  assume "grouped \<noteq> []"
  from render_lines_nonempty [OF this] show "\<exists>doc. render_html grouped = Inr doc"
    by (auto simp: render_html_def)
next
  assume "videos \<noteq> []"
  then show "group_by_task_model videos \<noteq> []" by (simp add: group_by_task_model_Nil)
qed

theorem render_fails_only_on_empty_grouping_witness:
  "group_by_task_model six_clips \<noteq> []
   \<and> six_clips \<noteq> []
   \<and> render_html (group_by_task_model six_clips) \<noteq> Inl IndexError
   \<and> (\<exists>doc. render_html (group_by_task_model six_clips) = Inr doc)"
proof -
  have n: "six_clips \<noteq> []" by (simp add: six_clips_def)
  with render_fails_only_on_empty_grouping [of "group_by_task_model six_clips" six_clips]
  show ?thesis by simp
qed

text \<open>
  Against claim C4 as stated: on the empty grouping the Renderer raises \<open>IndexError\<close>
  and returns no document.
\<close>

theorem render_empty_grouping_counterexample:
  "render_html [] = Inl IndexError"
  by (simp add: render_html_def render_lines_def tasks_of_def getitem_def bind_err_def)

section \<open>Order independence of the Aggregator\<close>

lemma join_Cons: "join sep (x # xs) = x @ (if xs = [] then [] else sep @ join sep xs)"
  by (cases xs) simp_all

lemma join_inj:
  assumes "xs \<noteq> []" and "ys \<noteq> []"
    and "\<forall>s\<in>set xs. c \<notin> set s" and "\<forall>s\<in>set ys. c \<notin> set s"
    and "join [c] xs = join [c] ys"
  shows "xs = ys"
  using assms
proof (induction xs arbitrary: ys)
  case Nil
  then show ?case by simp
next
  case (Cons x xs)
  from Cons.prems(2) obtain y ys' where ys: "ys = y # ys'" by (cases ys) auto
  let ?rx = "if xs = [] then [] else [c] @ join [c] xs"
  let ?ry = "if ys' = [] then [] else [c] @ join [c] ys'"
  from Cons.prems(5) ys have e: "x @ ?rx = y @ ?ry" by (simp only: join_Cons)
  have tx: "takeWhile (\<lambda>a. a \<noteq> c) (x @ ?rx) = x"
    using Cons.prems(3) by (cases "xs = []") (auto simp: takeWhile_tail)
  have ty: "takeWhile (\<lambda>a. a \<noteq> c) (y @ ?ry) = y"
    using Cons.prems(4) ys by (cases "ys' = []") (auto simp: takeWhile_tail)
  from e tx ty have xy: "x = y" by simp
  with e have r: "?rx = ?ry" by simp
  show ?case
  proof (cases "xs = []")
    case True
    with r have "ys' = []" by (auto split: if_splits)
    with True xy ys show ?thesis by simp
  next
    case False
    with r have ne: "ys' \<noteq> []" and j: "join [c] xs = join [c] ys'" by (auto split: if_splits)
    from Cons.prems(3,4) ys have "\<forall>s\<in>set xs. c \<notin> set s" "\<forall>s\<in>set ys'. c \<notin> set s" by simp_all
    from Cons.IH [OF False ne this j] xy ys show ?thesis by simp
  qed
qed

lemma video_of_below_path:
  assumes "video_of vd (below vd segs) = Inr (Some v)" and "segs \<noteq> []"
  shows "path v = lit ''static/videos/highlight-videos/'' @ join [0x2F] segs"
  using assms
  by (auto simp: video_of_below bind_err_def str_path_def lit_def
      split: if_splits option.splits sum.splits)

lemma find_loop_mem:
  "find_loop vd res ps = Inr vs \<Longrightarrow> v \<in> set vs \<Longrightarrow>
   v \<in> set res \<or> (\<exists>p\<in>set ps. video_of vd p = Inr (Some v))"
proof (induction ps arbitrary: res)
  case Nil
  then show ?case by simp
next
  case (Cons p ps)
  show ?case
  proof (cases "video_of vd p")
    case (Inl e)
    with Cons.prems show ?thesis by simp
  next
    case (Inr r)
    show ?thesis
    proof (cases r)
      case None
      with Inr Cons.prems have "find_loop vd res ps = Inr vs" by simp
      from Cons.IH [OF this Cons.prems(2)] show ?thesis by auto
    next
      case (Some w)
      with Inr Cons.prems have "find_loop vd (res @ [w]) ps = Inr vs" by simp
      from Cons.IH [OF this Cons.prems(2)] Inr Some show ?thesis by auto
    qed
  qed
qed

lemma find_videos_mem:
  assumes "snd (find_videos env base) = Inr videos" and "v \<in> set videos"
  shows "\<exists>p\<in>set (rglob env). video_of (videos_dir_of base) p = Inr (Some v)"
proof -
  from assms have "find_loop (videos_dir_of base) [] (rglob env) = Inr videos"
    by (auto simp: find_videos_def Let_def print_line_def split: if_splits)
  from find_loop_mem [OF this assms(2)] show ?thesis by simp
qed

lemma located_key_determines_record:
  assumes wf: "\<forall>segs\<in>set paths. segs \<noteq> [] \<and> (\<forall>s\<in>set segs. 0x2F \<notin> set s)"
    and r: "rglob env = map (below (videos_dir_of base)) paths"
    and f: "snd (find_videos env base) = Inr videos"
  shows "inj_on video_key (set videos)"
proof (rule inj_onI)
  fix a b
  assume a: "a \<in> set videos" and b: "b \<in> set videos" and k: "video_key a = video_key b"
  let ?vd = "videos_dir_of base"
  from find_videos_mem [OF f a] r obtain sa where sa: "sa \<in> set paths"
    and va: "video_of ?vd (below ?vd sa) = Inr (Some a)" by auto
  from find_videos_mem [OF f b] r obtain sb where sb: "sb \<in> set paths"
    and vb: "video_of ?vd (below ?vd sb) = Inr (Some b)" by auto
  from wf sa sb have na: "sa \<noteq> []" and nb: "sb \<noteq> []"
    and ca: "\<forall>s\<in>set sa. 0x2F \<notin> set s" and cb: "\<forall>s\<in>set sb. 0x2F \<notin> set s" by auto
  from k have "path a = path b" by (simp add: video_key_def)
  with video_of_below_path [OF va na] video_of_below_path [OF vb nb]
  have "join [0x2F] sa = join [0x2F] sb" by simp
  from join_inj [OF na nb ca cb this] have "sa = sb" .
  with va vb show "a = b" by simp
qed

text \<open>
  Claim C7. The Aggregator is a function of its input, and the input it receives is an
  output of the Locator, in which the path of a record determines the record (the names
  of a path contain no \<open>/\<close>). For every such list and every permutation of it the
  grouping is the same: the same group for every pair \<open>(task, model)\<close>; this holds for
  every input in which no two different records share the sort key. Each group is sorted
  ascending by \<open>(iter_num, path)\<close>: an earlier record has the smaller iteration number
  or, with equal iteration numbers, the path that is not greater in the lexicographic
  order of strings.
\<close>

theorem aggregate_permutation_invariant:
  "((\<forall>segs\<in>set paths. segs \<noteq> [] \<and> (\<forall>s\<in>set segs. 0x2F \<notin> set s)) \<and>
      rglob env = map (below (videos_dir_of base)) paths \<and>
      snd (find_videos env base) = Inr xs \<and> mset xs = mset ys \<longrightarrow>
      map_of (group_by_task_model xs) = map_of (group_by_task_model ys))
   \<and> (mset xs = mset ys \<and> inj_on video_key (set xs) \<longrightarrow>
      map_of (group_by_task_model xs) = map_of (group_by_task_model ys))
   \<and> (map_of (group_by_task_model xs) k = Some vids \<and> i < j \<and> j < length vids \<longrightarrow>
        iter_num (vids ! i) < iter_num (vids ! j) \<or>
        (iter_num (vids ! i) = iter_num (vids ! j) \<and> path (vids ! i) \<le> path (vids ! j)))"
proof -
  have same: "map_of (group_by_task_model xs) = map_of (group_by_task_model ys)"
    if m: "mset xs = mset ys" and inj: "inj_on video_key (set xs)"
  proof
    fix g
    let ?P = "\<lambda>v. (task v, model v) = g"
    from m have mf: "mset (filter ?P xs) = mset (filter ?P ys)" by simp
    from inj have "inj_on video_key (set (filter ?P xs))" by (auto simp: inj_on_def)
    from sort_key_inj_mset [OF mf this]
    have s: "sort_and_cut (filter ?P xs) = sort_and_cut (filter ?P ys)"
      by (simp add: sort_and_cut_def)
    from mf have "length (filter ?P xs) = length (filter ?P ys)" by (rule mset_eq_length)
    then have "filter ?P xs = [] \<longleftrightarrow> filter ?P ys = []"
      by (simp only: length_0_conv [symmetric])
    with s show "map_of (group_by_task_model xs) g = map_of (group_by_task_model ys) g"
      by (simp add: map_of_group_by_task_model)
  qed
  show ?thesis
  proof (intro conjI impI)
    assume a: "(\<forall>segs\<in>set paths. segs \<noteq> [] \<and> (\<forall>s\<in>set segs. 0x2F \<notin> set s)) \<and>
      rglob env = map (below (videos_dir_of base)) paths \<and>
      snd (find_videos env base) = Inr xs \<and> mset xs = mset ys"
    then have "inj_on video_key (set xs)"
      by (intro located_key_determines_record [of paths env base]) simp_all
    with a show "map_of (group_by_task_model xs) = map_of (group_by_task_model ys)"
      by (intro same) simp_all
  next
    assume "mset xs = mset ys \<and> inj_on video_key (set xs)"
    then show "map_of (group_by_task_model xs) = map_of (group_by_task_model ys)"
      by (intro same) simp_all
  next
    assume a: "map_of (group_by_task_model xs) k = Some vids \<and> i < j \<and> j < length vids"
    then have "sorted (map video_key vids)" by (intro group_sorted [of xs k]) simp
    with a have "video_key (vids ! i) \<le> video_key (vids ! j)"
      using sorted_nth_mono [of "map video_key vids" i j] by simp
    then show "iter_num (vids ! i) < iter_num (vids ! j) \<or>
        (iter_num (vids ! i) = iter_num (vids ! j) \<and> path (vids ! i) \<le> path (vids ! j))"
      by (simp add: video_key_le)
  qed
qed

lemma colliding_videos:
  "map_sum id (map (\<lambda>v. (task v, model v))) (snd (find_videos colliding_tree project_root))
   = Inr [(lit ''a'', lit ''b-gpt-5''), (lit ''a-b'', lit ''gpt-5'')]"
proof -
  have i: "iter_num_of (lit ''run_1'') = Inr 1"
    by (simp add: iter_num_of_def ITER_RE_search_def is_decimal_ascii is_ascii_digit_def
        py_int_def decimal_ascii bind_err_def lit_def)
  have m1: "model_idx_of [lit ''x'', lit ''a'', lit ''b-gpt-5'', lit ''run_1'', lit ''y'',
      lit ''sim.mp4''] = Some 2"
    by (simp add: model_idx_of_def lit_def)
  have m2: "model_idx_of [lit ''x'', lit ''a-b'', lit ''gpt-5'', lit ''run_1'', lit ''y'',
      lit ''sim.mp4''] = Some 2"
    by (simp add: model_idx_of_def lit_def)
  have e: "dir_exists colliding_tree" by (simp add: colliding_tree_def)
  have c: "can_print colliding_tree
      (lit ''Searching for videos in '' @ str_path (videos_dir_of project_root))"
    by (rule can_print_project_root) (simp add: colliding_tree_def)
  show ?thesis
    by (simp add: find_videos_searching [OF e c])
       (simp add: colliding_tree_def video_of_below m1 m2 i getitem_def bind_err_def)
qed

theorem aggregate_permutation_invariant_witness:
  "(\<exists>xs. snd (find_videos colliding_tree project_root) = Inr xs
        \<and> length xs = 2 \<and> mset xs = mset (rev xs)
        \<and> map_of (group_by_task_model xs) = map_of (group_by_task_model (rev xs)))
   \<and> mset six_clips = mset (rev six_clips) \<and> inj_on video_key (set six_clips)
   \<and> map_of (group_by_task_model six_clips) = map_of (group_by_task_model (rev six_clips))
   \<and> map_of (group_by_task_model [clip [] 2 (lit ''b''), clip [] 2 (lit ''a'')])
        (lit ''taskX'', lit ''gpt-5'') = Some [clip [] 2 (lit ''a''), clip [] 2 (lit ''b'')]
   \<and> (0::nat) < 1 \<and> 1 < length [clip [] 2 (lit ''a''), clip [] 2 (lit ''b'')]
   \<and> path ([clip [] 2 (lit ''a''), clip [] 2 (lit ''b'')] ! 0)
       \<le> path ([clip [] 2 (lit ''a''), clip [] 2 (lit ''b'')] ! 1)"
proof -
  let ?vids = "[clip [] 2 (lit ''a''), clip [] 2 (lit ''b'')]"
  let ?paths = "[[lit ''x'', lit ''a'', lit ''b-gpt-5'', lit ''run_1'', lit ''y'', lit ''sim.mp4''],
         [lit ''x'', lit ''a-b'', lit ''gpt-5'', lit ''run_1'', lit ''y'', lit ''sim.mp4'']]"
  have wf: "\<forall>segs\<in>set ?paths. segs \<noteq> [] \<and> (\<forall>s\<in>set segs. 0x2F \<notin> set s)"
    by (simp add: lit_def)
  have rg: "rglob colliding_tree = map (below (videos_dir_of project_root)) ?paths"
    by (simp add: colliding_tree_def)
  from colliding_videos obtain xs where xs: "snd (find_videos colliding_tree project_root) = Inr xs"
    and lx: "length xs = 2"
    by (cases "snd (find_videos colliding_tree project_root)") (auto dest: arg_cong [of _ _ length])
  have mx: "mset xs = mset (rev xs)" by simp
  from aggregate_permutation_invariant [where paths = "?paths" and env = colliding_tree
      and base = project_root and xs = xs and ys = "rev xs"] wf rg xs mx
  have loc: "map_of (group_by_task_model xs) = map_of (group_by_task_model (rev xs))" by blast
  have m: "mset six_clips = mset (rev six_clips)" by simp
  have i: "inj_on video_key (set six_clips)"
    by (simp add: six_clips_def video_key_def clip_def lit_def)
  have g: "map_of (group_by_task_model [clip [] 2 (lit ''b''), clip [] 2 (lit ''a'')])
        (lit ''taskX'', lit ''gpt-5'') = Some ?vids"
    by (simp add: group_by_task_model_def group_loop_def sort_and_cut_def video_key_def
        clip_def lit_def)
  have l: "(0::nat) < 1 \<and> 1 < length ?vids" by simp
  from aggregate_permutation_invariant [of _ _ _ six_clips "rev six_clips"] m i
  have e: "map_of (group_by_task_model six_clips) = map_of (group_by_task_model (rev six_clips))"
    by blast
  from aggregate_permutation_invariant
         [where xs = "[clip [] 2 (lit ''b''), clip [] 2 (lit ''a'')]"
            and k = "(lit ''taskX'', lit ''gpt-5'')" and vids = "?vids" and i = 0 and j = 1] g l
  have "iter_num (?vids ! 0) < iter_num (?vids ! 1) \<or>
        (iter_num (?vids ! 0) = iter_num (?vids ! 1) \<and> path (?vids ! 0) \<le> path (?vids ! 1))"
    by blast
  then have p: "path (?vids ! 0) \<le> path (?vids ! 1)" by (simp add: clip_def)
  from xs lx mx loc m i e g l p show ?thesis by blast
qed

section \<open>Properties of the program\<close>

lemma find_videos_none:
  assumes "\<not> dir_exists env \<or> rglob env = []"
    and "can_print env
          ((if dir_exists env then lit ''Searching for videos in ''
            else lit ''Videos directory not found at '') @ str_path (videos_dir_of base))"
  shows "find_videos env base =
     ([(if dir_exists env then lit ''Searching for videos in ''
        else lit ''Videos directory not found at '') @ str_path (videos_dir_of base)], Inr [])"
  using assms by (cases "dir_exists env") (simp_all add: find_videos_def Let_def print_line_def)

lemma find_videos_unprintable:
  assumes "\<not> can_print env
          ((if dir_exists env then lit ''Searching for videos in ''
            else lit ''Videos directory not found at '') @ str_path (videos_dir_of base))"
  shows "find_videos env base = ([], Inl UnicodeEncodeError)"
  using assms by (cases "dir_exists env") (simp_all add: find_videos_def Let_def print_line_def)

lemma find_videos_printed:
  assumes "snd (find_videos env base) = Inr videos"
  shows "fst (find_videos env base) =
     [(if dir_exists env then lit ''Searching for videos in ''
       else lit ''Videos directory not found at '') @ str_path (videos_dir_of base)]"
  using assms
  by (cases "dir_exists env")
     (simp_all add: find_videos_def Let_def print_line_def split: if_splits)

lemma main_with_no_videos:
  assumes "snd (find_videos env base) = Inr []"
  shows "main_with aggregate render env base out_arg =
     (if can_print env (lit ''<!-- No videos found -->'')
      then \<lparr>stdout = fst (find_videos env base) @ [lit ''<!-- No videos found -->''],
            written = None, raised = None\<rparr>
      else \<lparr>stdout = fst (find_videos env base), written = None,
            raised = Some UnicodeEncodeError\<rparr>)"
proof -
  obtain printed r where p: "find_videos env base = (printed, r)" by (cases "find_videos env base")
  with assms have "r = Inr []" by simp
  with p show ?thesis by (simp add: main_with_def print_line_def)
qed

text \<open>
  Claim C5, as amended. When the Locator finds no videos, in particular when the videos
  directory is absent or holds no \<open>sim.mp4\<close>, and standard output can encode the lines,
  standard output consists of the one line the Locator prints (that the directory was
  not found, or that the search begins) followed by the line
  \<open><!-- No videos found -->\<close> and nothing else; no file is written and the run ends
  without an exception. Aggregator and Renderer are not invoked: the outcome is the same
  whatever they are. When standard output cannot encode the Locator's line, which holds
  the path of the base directory, the run ends with \<open>UnicodeEncodeError\<close> and nothing
  is printed.
\<close>

theorem no_videos_placeholder:
  "((\<not> dir_exists env \<or> rglob env = []) \<and>
      can_print env
        ((if dir_exists env then lit ''Searching for videos in ''
          else lit ''Videos directory not found at '') @ str_path (videos_dir_of base)) \<longrightarrow>
      snd (find_videos env base) = Inr [])
   \<and> (snd (find_videos env base) = Inr [] \<and> can_print env (lit ''<!-- No videos found -->'') \<longrightarrow>
        main_with aggregate render env base out_arg =
          \<lparr>stdout =
             [(if dir_exists env then lit ''Searching for videos in ''
               else lit ''Videos directory not found at '') @ str_path (videos_dir_of base),
              lit ''<!-- No videos found -->''],
           written = None, raised = None\<rparr>
        \<and> main env base out_arg = main_with aggregate render env base out_arg)
   \<and> (\<not> can_print env
        ((if dir_exists env then lit ''Searching for videos in ''
          else lit ''Videos directory not found at '') @ str_path (videos_dir_of base)) \<longrightarrow>
        main_with aggregate render env base out_arg =
          \<lparr>stdout = [], written = None, raised = Some UnicodeEncodeError\<rparr>
        \<and> main env base out_arg = main_with aggregate render env base out_arg)"
proof (intro conjI impI)
  assume "(\<not> dir_exists env \<or> rglob env = []) \<and>
      can_print env
        ((if dir_exists env then lit ''Searching for videos in ''
          else lit ''Videos directory not found at '') @ str_path (videos_dir_of base))"
  then have "find_videos env base =
     ([(if dir_exists env then lit ''Searching for videos in ''
        else lit ''Videos directory not found at '') @ str_path (videos_dir_of base)], Inr [])"
    by (intro find_videos_none) simp_all
  then show "snd (find_videos env base) = Inr []" by simp
next
  assume a: "snd (find_videos env base) = Inr [] \<and> can_print env (lit ''<!-- No videos found -->'')"
  then have f: "snd (find_videos env base) = Inr []" by simp
  from main_with_no_videos [OF f] a find_videos_printed [OF f]
  show "main_with aggregate render env base out_arg =
          \<lparr>stdout =
             [(if dir_exists env then lit ''Searching for videos in ''
               else lit ''Videos directory not found at '') @ str_path (videos_dir_of base),
              lit ''<!-- No videos found -->''],
           written = None, raised = None\<rparr>"
    by simp
  from main_with_no_videos [OF f]
  show "main env base out_arg = main_with aggregate render env base out_arg"
    by (simp add: main_def)
next
  assume a: "\<not> can_print env
        ((if dir_exists env then lit ''Searching for videos in ''
          else lit ''Videos directory not found at '') @ str_path (videos_dir_of base))"
  from find_videos_unprintable [OF a]
  show "main_with aggregate render env base out_arg =
          \<lparr>stdout = [], written = None, raised = Some UnicodeEncodeError\<rparr>"
    by (simp add: main_with_def)
  from find_videos_unprintable [OF a]
  show "main env base out_arg = main_with aggregate render env base out_arg"
    by (simp add: main_def main_with_def)
qed

theorem no_videos_placeholder_witness:
  "rglob bare_tree = []
   \<and> can_print bare_tree (lit ''Videos directory not found at /proj/static/videos/highlight-videos'')
   \<and> can_print bare_tree (lit ''<!-- No videos found -->'')
   \<and> snd (find_videos bare_tree project_root) = Inr []
   \<and> main bare_tree project_root None =
       \<lparr>stdout = [lit ''Videos directory not found at /proj/static/videos/highlight-videos'',
                  lit ''<!-- No videos found -->''],
        written = None, raised = None\<rparr>
   \<and> main bare_tree surrogate_root None =
       \<lparr>stdout = [], written = None, raised = Some UnicodeEncodeError\<rparr>"
proof -
  let ?msg = "\<lambda>base. (if dir_exists bare_tree then lit ''Searching for videos in ''
          else lit ''Videos directory not found at '') @ str_path (videos_dir_of base)"
  have r: "rglob bare_tree = []" by (simp add: bare_tree_def)
  have d: "\<not> dir_exists bare_tree" by (simp add: bare_tree_def)
  have s: "str_path (videos_dir_of project_root) = lit ''/proj/static/videos/highlight-videos''"
    by (simp add: str_path_def videos_dir_of_def joinpath_def project_root_def lit_def)
  have c1: "can_print bare_tree (?msg project_root)"
    using d can_print_project_root(2) [of bare_tree] by (simp add: bare_tree_def)
  have c2: "can_print bare_tree (lit ''<!-- No videos found -->'')"
    by (simp add: can_print_def bare_tree_def utf8_strict_def lit_def)
  have c3: "\<not> can_print bare_tree (?msg surrogate_root)"
    by (simp add: can_print_def bare_tree_def utf8_strict_def str_path_def videos_dir_of_def
        joinpath_def surrogate_root_def lit_def)
  note inst = no_videos_placeholder [where env = bare_tree and aggregate = group_by_task_model
      and render = render_html and out_arg = None]
  from inst [where base = project_root] r c1
  have f: "snd (find_videos bare_tree project_root) = Inr []" by blast
  from inst [where base = project_root] f c2 d
  have m1: "main bare_tree project_root None =
       \<lparr>stdout = [lit ''Videos directory not found at '' @ str_path (videos_dir_of project_root),
                  lit ''<!-- No videos found -->''],
        written = None, raised = None\<rparr>"
    by simp
  from inst [where base = surrogate_root] c3
  have m2: "main bare_tree surrogate_root None =
       \<lparr>stdout = [], written = None, raised = Some UnicodeEncodeError\<rparr>"
    by simp
  from c1 d s have c1': "can_print bare_tree
      (lit ''Videos directory not found at /proj/static/videos/highlight-videos'')"
    by (simp add: lit_def)
  from r c1' c2 f m1 m2 s show ?thesis by (simp add: lit_def)
qed

text \<open>
  Against claim C5 as stated: without a videos directory two lines reach standard
  output, the Locator's message and then the comment, so the output is not the comment
  alone.
\<close>

theorem no_videos_output_counterexample:
  "stdout (main bare_tree project_root None) =
     [lit ''Videos directory not found at /proj/static/videos/highlight-videos'',
      lit ''<!-- No videos found -->'']
   \<and> stream_of (stdout (main bare_tree project_root None))
       \<noteq> stream_of [lit ''<!-- No videos found -->'']"
  by (simp add: main_def main_with_def find_videos_def print_line_def can_print_def
      utf8_strict_def bare_tree_def Let_def str_path_def
      videos_dir_of_def joinpath_def project_root_def stream_of_def lit_def)

lemma set_sorted_items: "set (sorted_items grouped) = set grouped"
  by (simp add: sorted_items_def)

lemma length_concat_uniform:
  "\<forall>x\<in>set xs. length (f x) = n \<Longrightarrow> length (concat (map f xs)) = n * length xs"
  by (induction xs) simp_all

lemma concat_uniform_nth:
  "\<forall>x\<in>set xs. length (f x) = n \<Longrightarrow> i < length xs \<Longrightarrow> j < n \<Longrightarrow>
   concat (map f xs) ! (n * i + j) = f (xs ! i) ! j"
proof (induction xs arbitrary: i)
  case Nil
  then show ?case by simp
next
  case (Cons x xs)
  show ?case
  proof (cases i)
    case 0
    with Cons.prems show ?thesis by (simp add: nth_append)
  next
    case (Suc k)
    with Cons.prems have "concat (map f xs) ! (n * k + j) = f (xs ! k) ! j"
      by (intro Cons.IH) simp_all
    moreover have "n * Suc k + j = length (f x) + (n * k + j)"
      using Cons.prems(1) by simp
    ultimately show ?thesis using Suc by (simp only: list.map concat.simps nth_append_length_plus nth_Cons_Suc)
  qed
qed

lemma length_card_lines: "length (card_lines iv) = 12"
  by (cases iv) (simp add: card_lines_def Let_def)

lemma card_line_caption:
  \<open>card_lines (idx, v) ! 8 = lit ''            <p class="subtitle is-6">'' @ caption_of idx @ lit ''</p>''\<close>
  by (simp add: card_lines_def Let_def)

lemma card_line_source:
  \<open>card_lines (idx, v) ! 4 = lit ''              <source src="'' @ path v @ lit ''" type="video/mp4">''\<close>
  by (simp add: card_lines_def Let_def)

lemma section_lines_card:
  assumes "idx < length vids" and "j < 12"
  shows "section_lines ((t, m), vids) ! (4 + (12 * idx + j)) = card_lines (idx, vids ! idx) ! j"
proof -
  let ?cards = "concat (map card_lines (enumerate 0 vids))"
  have u: "\<forall>x\<in>set (enumerate 0 vids). length (card_lines x) = 12"
    by (simp add: length_card_lines)
  have len: "length ?cards = 12 * length vids"
    using length_concat_uniform [OF u] by simp
  from assms have lt: "12 * idx + j < length ?cards" unfolding len by simp
  have "section_lines ((t, m), vids) ! (4 + (12 * idx + j)) = ?cards ! (12 * idx + j)"
    using lt by (simp add: section_lines_def nth_append)
  also have "\<dots> = card_lines (enumerate 0 vids ! idx) ! j"
    using assms by (intro concat_uniform_nth [OF u]) simp_all
  also have "enumerate 0 vids ! idx = (idx, vids ! idx)"
    using assms(1) by (simp add: nth_enumerate_eq)
  finally show ?thesis .
qed

lemma decimal_number_snoc:
  "decimal_number (ds @ [c]) = 10 * decimal_number ds + int (digit_val c)"
  by (simp add: decimal_number_def)

lemma str_nat_digits: "str_nat n \<noteq> [] \<and> (\<forall>c\<in>set (str_nat n). is_decimal c)"
proof (induction n rule: str_nat.induct)
  case (1 n)
  have d: "is_decimal (0x30 + k)" if "k < 10" for k :: nat
    using that by (simp add: is_decimal_ascii is_ascii_digit_def)
  show ?case
  proof (cases "n < 10")
    case True
    then show ?thesis using d [of n] by (simp add: str_nat.simps [of n])
  next
    case False
    with 1 d [of "n mod 10"] show ?thesis by (simp add: str_nat.simps [of n])
  qed
qed

lemma decimal_number_str_nat: "decimal_number (str_nat n) = int n"
proof (induction n rule: str_nat.induct)
  case (1 n)
  have v: "digit_val (0x30 + k) = k" if "k < 10" for k :: nat
    using that by (simp add: digit_val_ascii is_ascii_digit_def)
  show ?case
  proof (cases "n < 10")
    case True
    then show ?thesis
      using v [of n] by (simp add: str_nat.simps [of n] decimal_number_def)
  next
    case False
    with 1 have "decimal_number (str_nat (n div 10)) = int (n div 10)" by simp
    with False v [of "n mod 10"] show ?thesis
      by (simp add: str_nat.simps [of n] decimal_number_snoc zdiv_int zmod_int)
  qed
qed

lemma py_int_str_nat: "py_int (str_nat n) = Inr (int n)"
  using str_nat_digits [of n] by (simp add: py_int_digits decimal_number_str_nat)

lemma section_in_document:
  assumes "render_lines grouped = Inr out" and "item \<in> set grouped"
  shows "\<exists>pre post. out = pre @ section_lines item @ post"
proof -
  from assms(2) have ne: "grouped \<noteq> []" by auto
  from assms(2) have "item \<in> set (sorted_items grouped)" by (simp add: set_sorted_items)
  then obtain xs ys where "sorted_items grouped = xs @ item # ys"
    by (auto dest: split_list)
  then have c: "concat (map section_lines (sorted_items grouped)) =
      concat (map section_lines xs) @ section_lines item @ concat (map section_lines ys)"
    by simp
  from render_lines_nonempty [OF ne] assms(1)
  obtain ms where "out = (head_lines @ task_select_open @ map option_line (tasks_of grouped)
      @ select_close @ model_select_open @ map option_line ms @ select_close @ controls_close)
      @ concat (map section_lines (sorted_items grouped))
      @ (script_lines (models_by_task_of grouped) @ closing_lines)"
    by auto
  then have "out = (head_lines @ task_select_open @ map option_line (tasks_of grouped)
      @ select_close @ model_select_open @ map option_line ms @ select_close @ controls_close
      @ concat (map section_lines xs))
      @ section_lines item
      @ (concat (map section_lines ys) @ script_lines (models_by_task_of grouped)
         @ closing_lines)"
    unfolding c by simp
  then show ?thesis by blast
qed

lemma join_append:
  "xs \<noteq> [] \<Longrightarrow> ys \<noteq> [] \<Longrightarrow> join sep (xs @ ys) = join sep xs @ sep @ join sep ys"
proof (induction xs)
  case Nil
  then show ?case by simp
next
  case (Cons x xs)
  then show ?case by (cases "xs = []") (simp_all add: join_Cons)
qed

lemma join_block:
  assumes "a \<noteq> []" and "b \<noteq> []" and "c \<noteq> []"
  shows "join sep (a @ b @ c) = join sep a @ sep @ join sep b @ sep @ join sep c"
proof -
  from assms have "b @ c \<noteq> []" by simp
  from join_append [OF assms(1) this] join_append [OF assms(2,3)] show ?thesis by simp
qed

lemma card_in_section:
  assumes "idx < length vids"
  shows "\<exists>pre post. pre \<noteq> [] \<and> post \<noteq> [] \<and>
     section_lines ((t, m), vids) = pre @ card_lines (idx, vids ! idx) @ post"
proof -
  let ?E = "enumerate 0 vids"
  from assms have i: "idx < length ?E" by simp
  have e: "?E ! idx = (idx, vids ! idx)" using assms by (simp add: nth_enumerate_eq)
  from id_take_nth_drop [OF i] e
  have "?E = take idx ?E @ (idx, vids ! idx) # drop (Suc idx) ?E" by simp
  then have "concat (map card_lines ?E) =
      concat (map card_lines (take idx ?E)) @ card_lines (idx, vids ! idx)
        @ concat (map card_lines (drop (Suc idx) ?E))"
    by (metis concat.simps(2) concat_append list.simps(9) map_append)
  then have \<open>section_lines ((t, m), vids) =
      ([section_open (section_id_of t m), lit ''  <div class="container is-max-desktop">'',
        lit ''    <h2 class="title is-3">'' @ t @ lit '' '' @ [0xE2, 0x20AC, 0x201D] @ lit '' '' @ m
          @ lit ''</h2>'',
        lit ''    <div class="columns is-multiline">'']
       @ concat (map card_lines (take idx ?E)))
      @ card_lines (idx, vids ! idx)
      @ (concat (map card_lines (drop (Suc idx) ?E))
         @ [lit ''    </div>'', lit ''  </div>'', lit ''</section>'', []])\<close>
    by (simp add: section_lines_def)
  then show ?thesis by blast
qed

lemma card_in_document:
  assumes "render_html grouped = Inr doc" and "((t, m), vids) \<in> set grouped"
    and "idx < length vids"
  shows "\<exists>pre post. doc = pre @ [0x0A] @ join [0x0A] (card_lines (idx, vids ! idx)) @ [0x0A] @ post"
proof -
  from assms(1) obtain out where out: "render_lines grouped = Inr out"
    and doc: "doc = join [0x0A] out"
    by (cases "render_lines grouped") (auto simp: render_html_def)
  from section_in_document [OF out assms(2)]
  obtain a b where ab: "out = a @ section_lines ((t, m), vids) @ b" by blast
  from card_in_section [OF assms(3), of t m]
  obtain h tl where h: "h \<noteq> []" and tl: "tl \<noteq> []"
    and s: "section_lines ((t, m), vids) = h @ card_lines (idx, vids ! idx) @ tl" by blast
  have c: "card_lines (idx, vids ! idx) \<noteq> []"
    using length_card_lines [of "(idx, vids ! idx)"] by auto
  from ab s have "out = (a @ h) @ card_lines (idx, vids ! idx) @ (tl @ b)" by simp
  moreover have "a @ h \<noteq> []" "tl @ b \<noteq> []" using h tl by simp_all
  moreover have "join [0x0A] ((a @ h) @ card_lines (idx, vids ! idx) @ (tl @ b)) =
      join [0x0A] (a @ h) @ [0x0A] @ join [0x0A] (card_lines (idx, vids ! idx)) @ [0x0A]
        @ join [0x0A] (tl @ b)"
    by (rule join_block) (use h tl c in simp_all)
  ultimately have "join [0x0A] out =
      join [0x0A] (a @ h) @ [0x0A] @ join [0x0A] (card_lines (idx, vids ! idx)) @ [0x0A]
        @ join [0x0A] (tl @ b)"
    by simp
  with doc show ?thesis by blast
qed

text \<open>
  Claim C8. The document returned by the Renderer holds, for every group and every
  position \<open>idx\<close> of the group's list (counted from 0), the lines of the card of that
  position, one after the other. The card shows the video of the record at that
  position, and its caption line reads \<open>Feedback iteration\<close> followed by the decimal
  numeral of \<open>idx\<close>; the card does not depend on the record's \<open>iter_num\<close>. In the
  section of the group the card of position \<open>idx\<close> begins at line \<open>4 + 12 * idx\<close>.
\<close>

theorem caption_is_position_in_group:
  \<open>(render_html grouped = Inr doc \<and> ((t, m), vids) \<in> set grouped \<and> idx < length vids \<longrightarrow>
       (\<exists>pre post. doc =
          pre @ [0x0A] @ join [0x0A] (card_lines (idx, vids ! idx)) @ [0x0A] @ post))
   \<and> card_lines (idx, v) ! 4
        = lit ''              <source src="'' @ path v @ lit ''" type="video/mp4">''
   \<and> card_lines (idx, v) ! 8
        = lit ''            <p class="subtitle is-6">Feedback iteration '' @ str_nat idx @ lit ''</p>''
   \<and> card_lines (idx, v\<lparr>iter_num := n\<rparr>) = card_lines (idx, v)
   \<and> py_int (str_nat idx) = Inr (int idx)
   \<and> (idx < length vids \<longrightarrow>
       section_lines ((t, m), vids) ! (4 + (12 * idx + 8))
         = lit ''            <p class="subtitle is-6">Feedback iteration '' @ str_nat idx @ lit ''</p>''
     \<and> section_lines ((t, m), vids) ! (4 + (12 * idx + 4))
         = lit ''              <source src="'' @ path (vids ! idx) @ lit ''" type="video/mp4">'')
   \<and> (render_lines grouped = Inr out \<and> ((t, m), vids) \<in> set grouped \<longrightarrow>
        (\<exists>pre post. out = pre @ section_lines ((t, m), vids) @ post))\<close>
proof (intro conjI impI)
  assume "render_html grouped = Inr doc \<and> ((t, m), vids) \<in> set grouped \<and> idx < length vids"
  then show "\<exists>pre post. doc =
          pre @ [0x0A] @ join [0x0A] (card_lines (idx, vids ! idx)) @ [0x0A] @ post"
    by (intro card_in_document [of grouped doc t m]) simp_all
next
  show \<open>card_lines (idx, v) ! 4
        = lit ''              <source src="'' @ path v @ lit ''" type="video/mp4">''\<close>
    by (rule card_line_source)
  show \<open>card_lines (idx, v) ! 8
        = lit ''            <p class="subtitle is-6">Feedback iteration '' @ str_nat idx @ lit ''</p>''\<close>
    by (simp add: card_line_caption caption_of_def lit_def)
  show "card_lines (idx, v\<lparr>iter_num := n\<rparr>) = card_lines (idx, v)"
    by (simp add: card_lines_def)
  show "py_int (str_nat idx) = Inr (int idx)" by (rule py_int_str_nat)
next
  assume a: "idx < length vids"
  from section_lines_card [OF a, of 8 t m]
  show \<open>section_lines ((t, m), vids) ! (4 + (12 * idx + 8))
       = lit ''            <p class="subtitle is-6">Feedback iteration '' @ str_nat idx @ lit ''</p>''\<close>
    by (simp add: card_line_caption caption_of_def lit_def)
  from section_lines_card [OF a, of 4 t m]
  show \<open>section_lines ((t, m), vids) ! (4 + (12 * idx + 4))
       = lit ''              <source src="'' @ path (vids ! idx) @ lit ''" type="video/mp4">''\<close>
    by (simp add: card_line_source)
next
  assume "render_lines grouped = Inr out \<and> ((t, m), vids) \<in> set grouped"
  then show "\<exists>pre post. out = pre @ section_lines ((t, m), vids) @ post"
    by (intro section_in_document [of grouped]) simp_all
qed

theorem caption_is_position_in_group_witness:
  \<open>((lit ''push'', lit ''gpt-5''), [twin_a, twin_b]) \<in> set two_groups
   \<and> (1::nat) < length [twin_a, twin_b]
   \<and> (\<exists>doc pre post. render_html two_groups = Inr doc \<and>
         doc = pre @ [0x0A] @ join [0x0A] (card_lines (1, twin_b)) @ [0x0A] @ post)
   \<and> card_lines (1, twin_b) ! 8 = lit ''            <p class="subtitle is-6">Feedback iteration 1</p>''
   \<and> card_lines (1, twin_b) ! 4 = lit ''              <source src="p" type="video/mp4">''
   \<and> section_lines ((lit ''push'', lit ''gpt-5''), [twin_a, twin_b]) ! 24
       = lit ''            <p class="subtitle is-6">Feedback iteration 1</p>''\<close>
proof -
  let ?vids = "[twin_a, twin_b]"
  have mem: "((lit ''push'', lit ''gpt-5''), ?vids) \<in> set two_groups" by (simp add: two_groups_def)
  have l: "(1::nat) < length ?vids" by simp
  have s: "str_nat 1 = lit ''1''" by (simp add: str_nat.simps lit_def)
  have "two_groups \<noteq> []" by (simp add: two_groups_def)
  then obtain doc where doc: "render_html two_groups = Inr doc"
    using render_lines_nonempty [of two_groups] by (auto simp: render_html_def)
  note inst = caption_is_position_in_group [where grouped = two_groups and doc = doc
      and t = "lit ''push''" and m = "lit ''gpt-5''" and vids = "?vids" and idx = 1
      and v = twin_b]
  from inst doc mem l
  have d: "\<exists>pre post. doc = pre @ [0x0A] @ join [0x0A] (card_lines (1, ?vids ! 1)) @ [0x0A] @ post"
    by blast
  from inst s have c8: \<open>card_lines (1, twin_b) ! 8
      = lit ''            <p class="subtitle is-6">Feedback iteration 1</p>''\<close>
    by (simp add: lit_def)
  from inst have c4: \<open>card_lines (1, twin_b) ! 4
      = lit ''              <source src="p" type="video/mp4">''\<close>
    by (simp add: twin_b_def clip_def lit_def)
  from inst l s have s24: \<open>section_lines ((lit ''push'', lit ''gpt-5''), ?vids) ! 24
       = lit ''            <p class="subtitle is-6">Feedback iteration 1</p>''\<close>
    by (simp add: lit_def)
  from mem l doc d c8 c4 s24 show ?thesis by auto
qed

section \<open>Section elements of the document\<close>

lemma section_id_of_inj:
  assumes "0x2D \<notin> set t" and "0x2D \<notin> set t'" and "section_id_of t m = section_id_of t' m'"
  shows "t = t' \<and> m = m'"
proof -
  have tw: "takeWhile (\<lambda>c. c \<noteq> 0x2D) (section_id_of a b) = a" if "0x2D \<notin> set a" for a b
  proof -
    have "section_id_of a b = a @ 0x2D # b" by (simp add: section_id_of_def lit_def)
    moreover have "\<forall>c\<in>set a. c \<noteq> 0x2D" using that by auto
    ultimately show ?thesis by (simp add: takeWhile_tail)
  qed
  from tw [OF assms(1), of m] tw [OF assms(2), of m'] assms(3) have "t = t'" by simp
  with assms(3) show ?thesis by (simp add: section_id_of_def)
qed

lemma distinct_keys_sorted_items:
  "distinct (map fst grouped) \<Longrightarrow> distinct (map fst (sorted_items grouped))"
proof -
  assume d: "distinct (map fst grouped)"
  have "mset (map fst (sorted_items grouped)) = mset (map fst grouped)"
    by (simp add: sorted_items_def)
  then show ?thesis using d by (metis mset_eq_imp_distinct_iff)
qed

lemma section_tags_skip: "c \<noteq> 0x3C \<Longrightarrow> section_tags (c # s) = section_tags s"
  by (simp add: lit_def)

lemma section_tags_plain_prefix: "0x3C \<notin> set u \<Longrightarrow> section_tags (u @ s) = section_tags s"
  by (induction u) (simp_all add: lit_def)

lemma scans_to_Nil: "scans_to [] []"
  by (simp add: scans_to_def)

lemma scans_to_plain: "0x3C \<notin> set u \<Longrightarrow> scans_to u []"
  by (simp add: scans_to_def section_tags_plain_prefix)

lemma scans_to_append: "scans_to a ta \<Longrightarrow> scans_to b tb \<Longrightarrow> scans_to (a @ b) (ta @ tb)"
  by (simp add: scans_to_def)

lemma scans_to_tags: "scans_to l ts \<Longrightarrow> section_tags l = ts"
  using scans_to_def [of l ts] by (auto dest: spec [of _ "[]"])

lemma scans_to_join:
  "(\<And>l. l \<in> set ls \<Longrightarrow> scans_to l (g l)) \<Longrightarrow> scans_to (join [0x0A] ls) (concat (map g ls))"
proof (induction ls)
  case Nil
  show ?case by (simp add: scans_to_Nil)
next
  case (Cons l ls)
  have nl: "scans_to [0x0A] []" by (rule scans_to_plain) simp
  from Cons have l: "scans_to l (g l)" and r: "scans_to (join [0x0A] ls) (concat (map g ls))"
    by simp_all
  show ?case
  proof (cases "ls = []")
    case True
    with l show ?thesis by simp
  next
    case False
    from scans_to_append [OF l scans_to_append [OF nl r]] False
    show ?thesis by (simp add: join_Cons)
  qed
qed

lemma scans_head: "l \<in> set head_lines \<Longrightarrow> scans_to l []"
  by (auto simp: head_lines_def scans_to_def lit_def)

lemma scans_task_select_open: "l \<in> set task_select_open \<Longrightarrow> scans_to l []"
  by (auto simp: task_select_open_def scans_to_def lit_def)

lemma scans_model_select_open: "l \<in> set model_select_open \<Longrightarrow> scans_to l []"
  by (auto simp: model_select_open_def scans_to_def lit_def)

lemma scans_select_close: "l \<in> set select_close \<Longrightarrow> scans_to l []"
  by (auto simp: select_close_def scans_to_def lit_def)

lemma scans_controls_close: "l \<in> set controls_close \<Longrightarrow> scans_to l []"
  by (auto simp: controls_close_def scans_to_def lit_def)

lemma scans_closing: "l \<in> set closing_lines \<Longrightarrow> scans_to l []"
  by (auto simp: closing_lines_def scans_to_def lit_def)

lemma scans_option_line: "0x3C \<notin> set t \<Longrightarrow> scans_to (option_line t) []"
  by (simp add: option_line_def scans_to_def lit_def section_tags_plain_prefix)

lemma scans_section_open:
  assumes "0x3C \<notin> set i" and "0x3E \<notin> set i"
  shows "scans_to (section_open i) [section_attributes i]"
proof -
  from assms(2) have "\<And>x. x \<in> set i \<Longrightarrow> x \<noteq> 0x3E" by auto
  then show ?thesis
    using assms(1)
    by (simp add: section_open_def section_attributes_def scans_to_def lit_def
        section_tags_plain_prefix takeWhile_append2)
qed


lemma scans_script:
  "0x3C \<notin> set (json_dumps d) \<Longrightarrow> l \<in> set (script_lines d) \<Longrightarrow> scans_to l []"
  by (auto simp: script_lines_def scans_to_def lit_def section_tags_plain_prefix)

lemma str_nat_plain: "0x3C \<notin> set (str_nat n)"
proof (induction n rule: str_nat.induct)
  case (1 n)
  show ?case
  proof (cases "n < 10")
    case True
    then show ?thesis by (simp add: str_nat.simps [of n])
  next
    case False
    have "n mod 10 < 10" by simp
    then have "48 + n mod 10 \<noteq> 60" by linarith
    with False 1 show ?thesis by (simp add: str_nat.simps [of n])
  qed
qed

lemma scans_card:
  "0x3C \<notin> set (path v) \<Longrightarrow> l \<in> set (card_lines (idx, v)) \<Longrightarrow> scans_to l []"
  using str_nat_plain [of idx]
  by (auto simp: card_lines_def caption_of_def Let_def scans_to_def lit_def
      section_tags_plain_prefix)

lemma section_tags_cards:
  assumes "\<And>v. v \<in> set vids \<Longrightarrow> 0x3C \<notin> set (path v)"
    and "l \<in> set (concat (map card_lines (enumerate n vids)))"
  shows "scans_to l []"
proof -
  from assms(2) obtain iv where iv: "iv \<in> set (enumerate n vids)" and l: "l \<in> set (card_lines iv)"
    by auto
  obtain idx v where e: "iv = (idx, v)" by (cases iv)
  with iv have "v \<in> set vids" by (auto simp: in_set_enumerate_eq)
  from scans_card [OF assms(1) [OF this]] l e show ?thesis by simp
qed

lemma scans_section_lines:
  assumes "0x3C \<notin> set t" "0x3E \<notin> set t" "0x3C \<notin> set m" "0x3E \<notin> set m"
    and "\<And>v. v \<in> set vids \<Longrightarrow> 0x3C \<notin> set (path v)"
    and "l \<in> set (section_lines ((t, m), vids))"
  shows "scans_to l (if l = section_open (section_id_of t m)
                     then [section_attributes (section_id_of t m)] else [])"
proof -
  have i: "0x3C \<notin> set (section_id_of t m)" "0x3E \<notin> set (section_id_of t m)"
    using assms(1-4) by (simp_all add: section_id_of_def lit_def)
  have o: "scans_to (section_open (section_id_of t m)) [section_attributes (section_id_of t m)]"
    by (rule scans_section_open) (rule i)+
  have h: \<open>scans_to (lit ''    <h2 class="title is-3">'' @ t @ lit '' '' @ [0xE2, 0x20AC, 0x201D]
      @ lit '' '' @ m @ lit ''</h2>'') []\<close>
    using assms(1,3) by (simp add: scans_to_def lit_def section_tags_plain_prefix)
  have st: \<open>scans_to (lit ''  <div class="container is-max-desktop">'') []\<close>
    \<open>scans_to (lit ''    <div class="columns is-multiline">'') []\<close>
    \<open>scans_to (lit ''    </div>'') []\<close> \<open>scans_to (lit ''  </div>'') []\<close>
    \<open>scans_to (lit ''</section>'') []\<close>
    by (simp_all add: scans_to_def lit_def)
  have ne: \<open>section_open (section_id_of t m) \<noteq> x\<close> if "scans_to x []" for x
  proof
    assume "section_open (section_id_of t m) = x"
    with that scans_to_tags [OF o] scans_to_tags [of x "[]"] show False by simp
  qed
  have other: "scans_to x (if x = section_open (section_id_of t m)
                     then [section_attributes (section_id_of t m)] else [])"
    if "scans_to x []" for x
    using that ne [OF that] by (simp add: eq_commute [of x])
  from assms(6) consider "l = section_open (section_id_of t m)"
    | \<open>l = lit ''  <div class="container is-max-desktop">''\<close>
    | \<open>l = lit ''    <h2 class="title is-3">'' @ t @ lit '' '' @ [0xE2, 0x20AC, 0x201D]
      @ lit '' '' @ m @ lit ''</h2>''\<close>
    | \<open>l = lit ''    <div class="columns is-multiline">''\<close>
    | "l \<in> set (concat (map card_lines (enumerate 0 vids)))"
    | \<open>l = lit ''    </div>''\<close> | \<open>l = lit ''  </div>''\<close> | \<open>l = lit ''</section>''\<close> | "l = []"
    by (auto simp: section_lines_def)
  then show ?thesis
  proof cases
    case 1
    with o show ?thesis by simp
  next
    case 2
    with other [OF st(1)] show ?thesis by simp
  next
    case 3
    with other [OF h] show ?thesis by simp
  next
    case 4
    with other [OF st(2)] show ?thesis by simp
  next
    case 5
    from section_tags_cards [OF assms(5) 5] have "scans_to l []" by simp
    from other [OF this] show ?thesis .
  next
    case 6
    with other [OF st(3)] show ?thesis by simp
  next
    case 7
    with other [OF st(4)] show ?thesis by simp
  next
    case 8
    with other [OF st(5)] show ?thesis by simp
  next
    case 9
    with other [OF scans_to_Nil] show ?thesis by simp
  qed
qed


lemma scans_to_self: "scans_to l ts \<Longrightarrow> scans_to l (section_tags l)"
  using scans_to_tags [of l ts] by simp

lemma section_lines_scan:
  assumes "0x3C \<notin> set t" "0x3E \<notin> set t" "0x3C \<notin> set m" "0x3E \<notin> set m"
    and "\<And>v. v \<in> set vids \<Longrightarrow> 0x3C \<notin> set (path v)"
  shows "\<forall>l\<in>set (section_lines ((t, m), vids)). scans_to l (section_tags l)"
    and "concat (map section_tags (section_lines ((t, m), vids)))
         = [section_attributes (section_id_of t m)]"
proof -
  let ?o = "section_open (section_id_of t m)"
  let ?a = "section_attributes (section_id_of t m)"
  have each: "scans_to l (if l = ?o then [?a] else [])" if "l \<in> set (section_lines ((t, m), vids))" for l
    using assms that by (rule scans_section_lines)
  then show "\<forall>l\<in>set (section_lines ((t, m), vids)). scans_to l (section_tags l)"
    by (blast intro: scans_to_self)
  have tags: "section_tags l = (if l = ?o then [?a] else [])"
    if "l \<in> set (section_lines ((t, m), vids))" for l
    using each [OF that] by (rule scans_to_tags)
  have o: "section_tags ?o = [?a]"
    using tags [of ?o] by (simp add: section_lines_def)
  have no: "?o \<noteq> l" if "section_tags l = []" for l
    using that o by auto
  have i: "0x3C \<notin> set (section_id_of t m)" "0x3E \<notin> set (section_id_of t m)"
    using assms(1-4) by (simp_all add: section_id_of_def lit_def)
  have cards: "section_tags l = []" if "l \<in> set (concat (map card_lines (enumerate 0 vids)))" for l
    using section_tags_cards [OF assms(5) that] by (rule scans_to_tags)
  then have c: "concat (map section_tags (concat (map card_lines (enumerate 0 vids)))) = []"
    by simp
  have h: \<open>section_tags (lit ''    <h2 class="title is-3">'' @ t @ lit '' '' @ [0xE2, 0x20AC, 0x201D]
      @ lit '' '' @ m @ lit ''</h2>'') = []\<close>
    using assms(1,3) by (simp add: lit_def section_tags_plain_prefix)
  have st: \<open>section_tags (lit ''  <div class="container is-max-desktop">'') = []\<close>
    \<open>section_tags (lit ''    <div class="columns is-multiline">'') = []\<close>
    \<open>section_tags (lit ''    </div>'') = []\<close> \<open>section_tags (lit ''  </div>'') = []\<close>
    \<open>section_tags (lit ''</section>'') = []\<close>
    by (simp_all add: lit_def)
  show "concat (map section_tags (section_lines ((t, m), vids))) = [?a]"
    unfolding section_lines_def
    by (simp only: prod.case list.map map_append concat.simps concat_append o h st c
        section_tags.simps(1) append_Nil append_Nil2)
qed

lemma html_plainD:
  "html_plain s \<Longrightarrow> 0x3C \<notin> set s \<and> 0x3E \<notin> set s \<and> 0x22 \<notin> set s \<and> 0x26 \<notin> set s"
  by (auto simp: html_plain_def list_all_iff)

lemma plain_groupingD:
  assumes "plain_grouping grouped" and "((t, m), vids) \<in> set grouped"
  shows "html_plain t" "html_plain m" "\<And>v. v \<in> set vids \<Longrightarrow> html_plain (path v)"
  using assms by (auto simp: plain_grouping_def list_all_iff)

lemma concat_map_singletons:
  "(\<And>x. x \<in> set items \<Longrightarrow> concat (map f (g x)) = [h x]) \<Longrightarrow>
   concat (map f (concat (map g items))) = map h items"
  by (induction items) simp_all

lemma sections_scan:
  assumes "plain_grouping grouped" and "set items \<subseteq> set grouped"
  shows "\<forall>l\<in>set (concat (map section_lines items)). scans_to l (section_tags l)"
    and "concat (map section_tags (concat (map section_lines items)))
         = map (\<lambda>((t, m), vids). section_attributes (section_id_of t m)) items"
proof -
  have item: "(\<forall>l\<in>set (section_lines x). scans_to l (section_tags l)) \<and>
      concat (map section_tags (section_lines x))
        = [case x of ((t, m), vids) \<Rightarrow> section_attributes (section_id_of t m)]"
    if "x \<in> set items" for x
  proof -
    obtain t m vids where x: "x = ((t, m), vids)" by (metis surj_pair)
    with that assms(2) have mem: "((t, m), vids) \<in> set grouped" by auto
    note p = plain_groupingD [OF assms(1) mem]
    have pv: "0x3C \<notin> set (path v)" if "v \<in> set vids" for v
      using html_plainD [OF p(3) [OF that]] by simp
    from section_lines_scan [OF _ _ _ _ pv, of t m] html_plainD [OF p(1)] html_plainD [OF p(2)] x
    show ?thesis by simp
  qed
  then show "\<forall>l\<in>set (concat (map section_lines items)). scans_to l (section_tags l)"
    by auto
  from item show "concat (map section_tags (concat (map section_lines items)))
         = map (\<lambda>((t, m), vids). section_attributes (section_id_of t m)) items"
    by (intro concat_map_singletons) (simp add: case_prod_unfold)
qed


lemma hex_digit_plain: "d < 16 \<Longrightarrow> hex_digit d \<noteq> 0x3C"
  by (simp add: hex_digit_def)

lemma hex4_plain: "0x3C \<notin> set (hex4 n)"
  by (simp add: hex4_def hex_digit_plain)

lemma json_escape_plain: "c \<noteq> 0x3C \<Longrightarrow> 0x3C \<notin> set (json_escape c)"
  by (simp add: json_escape_def hex4_plain)

lemma json_str_plain: "0x3C \<notin> set s \<Longrightarrow> 0x3C \<notin> set (json_str s)"
proof -
  assume a: "0x3C \<notin> set s"
  have "0x3C \<notin> set (json_escape c)" if "c \<in> set s" for c
    using that a by (intro json_escape_plain) auto
  then show ?thesis by (auto simp: json_str_def)
qed

lemma set_join: "set (join sep xs) \<subseteq> set sep \<union> \<Union> (set ` set xs)"
  by (induction sep xs rule: join.induct) auto

lemma json_list_plain:
  assumes "\<forall>x\<in>set xs. 0x3C \<notin> set x"
  shows "0x3C \<notin> set (json_list xs)"
proof -
  have "0x3C \<notin> set (lit '', '') \<union> \<Union> (set ` set (map json_str xs))"
    using assms by (auto simp: lit_def dest: json_str_plain)
  with set_join [of "lit '', ''" "map json_str xs"]
  have "0x3C \<notin> set (join (lit '', '') (map json_str xs))" by blast
  then show ?thesis by (simp add: json_list_def lit_def)
qed

lemma json_dumps_plain:
  assumes "\<forall>(k, xs)\<in>set d. 0x3C \<notin> set k \<and> (\<forall>x\<in>set xs. 0x3C \<notin> set x)"
  shows "0x3C \<notin> set (json_dumps d)"
proof -
  let ?f = "\<lambda>(k, xs). json_str k @ lit '': '' @ json_list xs"
  have "0x3C \<notin> set (?f e)" if "e \<in> set d" for e
  proof -
    obtain k xs where e: "e = (k, xs)" by (cases e)
    with that assms have "0x3C \<notin> set k" "\<forall>x\<in>set xs. 0x3C \<notin> set x" by auto
    with e show ?thesis by (simp add: json_str_plain json_list_plain lit_def)
  qed
  then have "0x3C \<notin> set (lit '', '') \<union> \<Union> (set ` set (map ?f d))"
    by (auto simp: lit_def)
  with set_join [of "lit '', ''" "map ?f d"]
  have "0x3C \<notin> set (join (lit '', '') (map ?f d))" by blast
  then show ?thesis by (simp add: json_dumps_def lit_def)
qed

lemma tasks_of_mem:
  "t \<in> set (tasks_of grouped) \<Longrightarrow> \<exists>m vids. ((t, m), vids) \<in> set grouped"
  by (fastforce simp: tasks_of_def)

lemma models_by_task_mem:
  assumes "(k, xs) \<in> set (models_by_task_of grouped)"
  shows "k \<in> set (tasks_of grouped)" and "\<And>x. x \<in> set xs \<Longrightarrow> \<exists>t vids. ((t, x), vids) \<in> set grouped"
  using assms by (fastforce simp: models_by_task_of_def)+

lemma models_by_task_plain:
  assumes "plain_grouping grouped"
  shows "\<forall>(k, xs)\<in>set (models_by_task_of grouped). 0x3C \<notin> set k \<and> (\<forall>x\<in>set xs. 0x3C \<notin> set x)"
proof (intro ballI, clarify, intro conjI ballI)
  fix k xs
  assume m: "(k, xs) \<in> set (models_by_task_of grouped)"
  from models_by_task_mem(1) [OF m] tasks_of_mem obtain mm vids
    where "((k, mm), vids) \<in> set grouped" by blast
  from html_plainD [OF plain_groupingD(1) [OF assms this]] show "0x3C \<notin> set k" by simp
  fix x
  assume "x \<in> set xs"
  from models_by_task_mem(2) [OF m this] obtain t vids where "((t, x), vids) \<in> set grouped"
    by blast
  from html_plainD [OF plain_groupingD(2) [OF assms this]] show "0x3C \<notin> set x" by simp
qed

lemma section_tags_document:
  assumes "render_html grouped = Inr doc" and "plain_grouping grouped"
  shows "section_tags doc =
     map (\<lambda>((t, m), vids). section_attributes (section_id_of t m)) (sorted_items grouped)"
proof -
  from assms(1) obtain out where out: "render_lines grouped = Inr out"
    and doc: "doc = join [0x0A] out"
    by (cases "render_lines grouped") (auto simp: render_html_def)
  from out have ne: "grouped \<noteq> []" by (auto simp: render_lines_Nil)
  from render_lines_nonempty [OF ne] out
  obtain ms where ms: "dict_get (models_by_task_of grouped) (hd (tasks_of grouped)) = Inr ms"
    and o: "out = head_lines @ task_select_open @ map option_line (tasks_of grouped)
      @ select_close @ model_select_open @ map option_line ms @ select_close @ controls_close
      @ concat (map section_lines (sorted_items grouped))
      @ script_lines (models_by_task_of grouped) @ closing_lines"
    by auto
  note mp = models_by_task_plain [OF assms(2)]
  have tp: "0x3C \<notin> set t" if "t \<in> set (tasks_of grouped)" for t
  proof -
    from tasks_of_mem [OF that] obtain m vids where "((t, m), vids) \<in> set grouped" by blast
    from html_plainD [OF plain_groupingD(1) [OF assms(2) this]] show ?thesis by simp
  qed
  from ms have "(hd (tasks_of grouped), ms) \<in> set (models_by_task_of grouped)"
    by (auto simp: dict_get_def split: option.splits dest: map_of_SomeD)
  with mp have msp: "0x3C \<notin> set x" if "x \<in> set ms" for x using that by auto
  have jp: "0x3C \<notin> set (json_dumps (models_by_task_of grouped))"
    using mp by (rule json_dumps_plain)
  have opt: "scans_to l []" if "l \<in> set (map option_line (tasks_of grouped))" for l
    using that tp by (auto intro: scans_option_line)
  have opm: "scans_to l []" if "l \<in> set (map option_line ms)" for l
    using that msp by (auto intro: scans_option_line)
  have si: "set (sorted_items grouped) \<subseteq> set grouped" by (simp add: set_sorted_items)
  note sec = sections_scan [OF assms(2) si]
  have static: "scans_to l []" if "l \<in> set head_lines \<union> set task_select_open
      \<union> set (map option_line (tasks_of grouped)) \<union> set select_close \<union> set model_select_open
      \<union> set (map option_line ms) \<union> set controls_close
      \<union> set (script_lines (models_by_task_of grouped)) \<union> set closing_lines" for l
    using that scans_head scans_task_select_open opt scans_select_close scans_model_select_open
      opm scans_controls_close scans_script [OF jp] scans_closing
    by blast
  have all: "scans_to l (section_tags l)" if "l \<in> set out" for l
  proof (cases "l \<in> set (concat (map section_lines (sorted_items grouped)))")
    case True
    with sec(1) show ?thesis by blast
  next
    case False
    with that o have "scans_to l []" by (intro static) auto
    then show ?thesis by (rule scans_to_self)
  qed
  have nil: "concat (map section_tags ls) = []" if "\<And>l. l \<in> set ls \<Longrightarrow> scans_to l []" for ls
    using that by (auto dest: scans_to_tags)
  have z: "concat (map section_tags head_lines) = []"
    "concat (map section_tags task_select_open) = []"
    "concat (map section_tags (map option_line (tasks_of grouped))) = []"
    "concat (map section_tags select_close) = []"
    "concat (map section_tags model_select_open) = []"
    "concat (map section_tags (map option_line ms)) = []"
    "concat (map section_tags controls_close) = []"
    "concat (map section_tags (script_lines (models_by_task_of grouped))) = []"
    "concat (map section_tags closing_lines) = []"
    by (rule nil, rule static, simp)+
  from scans_to_join [of out section_tags, OF all]
  have "section_tags (join [0x0A] out) = concat (map section_tags out)"
    by (auto dest: scans_to_tags)
  also have "\<dots> = concat (map section_tags (concat (map section_lines (sorted_items grouped))))"
    unfolding o by (simp only: map_append concat_append z append_Nil append_Nil2)
  also note sec(2)
  finally show ?thesis using doc by simp
qed

lemma section_attributes_inj: "section_attributes a = section_attributes b \<longleftrightarrow> a = b"
  by (simp add: section_attributes_def)

lemma section_tags_length_append:
  "length (section_tags a) + length (section_tags b) \<le> length (section_tags (a @ b))"
proof (induction a)
  case Nil
  show ?case by simp
next
  case (Cons c a)
  have "prefix (lit ''<section'') ((c # a) @ b)" if "prefix (lit ''<section'') (c # a)"
    using that by (rule prefix_prefix)
  with Cons show ?case by auto
qed

lemma section_open_in_document:
  assumes "render_html grouped = Inr doc" and "((t, m), vids) \<in> set grouped"
  shows "\<exists>pre post. doc = pre @ section_open (section_id_of t m) @ post"
proof -
  from assms(1) obtain out where out: "render_lines grouped = Inr out"
    and doc: "doc = join [0x0A] out"
    by (cases "render_lines grouped") (auto simp: render_html_def)
  from section_in_document [OF out assms(2)]
  obtain a b where "out = a @ section_lines ((t, m), vids) @ b" by blast
  then obtain r where o: "out = a @ section_open (section_id_of t m) # r"
    by (simp add: section_lines_def)
  have "join [0x0A] (a @ l # r) = (if a = [] then [] else join [0x0A] a @ [0x0A]) @ l
      @ (if r = [] then [] else [0x0A] @ join [0x0A] r)" for l
    by (cases "a = []") (simp_all add: join_Cons join_append)
  with o doc show ?thesis by blast
qed

text \<open>
  Claim C6, as amended. For a grouping whose task names, model names and web paths are
  plain, the document returned by the Renderer has exactly one section tag per group,
  \<open>N\<close> for \<open>N\<close> distinct pairs, in the order of the sorted pairs; the tag of the pair
  \<open>(task, model)\<close> has the class \<open>section video-grid\<close>, the identifier
  \<open>task + "-" + model\<close> and the style \<open>display:none\<close>. The tags are pairwise
  distinct exactly when the identifiers of the groups are, which holds in particular
  when the pairs are distinct and no task name contains \<open>-\<close>.
\<close>

theorem one_section_per_group:
  "render_html grouped = Inr doc \<and> plain_grouping grouped \<longrightarrow>
     section_tags doc =
       map (\<lambda>((t, m), vids). section_attributes (section_id_of t m)) (sorted_items grouped)
     \<and> length (section_tags doc) = length grouped
     \<and> (distinct (section_tags doc) \<longleftrightarrow>
          distinct (map (\<lambda>((t, m), vids). section_id_of t m) grouped))
     \<and> (distinct (map fst grouped) \<and> (\<forall>((t, m), vids)\<in>set grouped. 0x2D \<notin> set t) \<longrightarrow>
          distinct (section_tags doc))"
proof
  assume a: "render_html grouped = Inr doc \<and> plain_grouping grouped"
  let ?id = "\<lambda>((t, m), vids). section_id_of t m"
  let ?key_id = "\<lambda>(t, m). section_id_of t m"
  from a have tags: "section_tags doc =
       map (\<lambda>((t, m), vids). section_attributes (section_id_of t m)) (sorted_items grouped)"
    by (intro section_tags_document) simp_all
  have e: "(\<lambda>((t, m), vids). section_attributes (section_id_of t m)) = section_attributes \<circ> ?id"
    by (auto simp: fun_eq_iff)
  have "distinct (map section_attributes ys) \<longleftrightarrow> distinct ys" for ys
    by (simp add: distinct_map inj_on_def section_attributes_inj)
  then have d1: "distinct (section_tags doc) \<longleftrightarrow> distinct (map ?id (sorted_items grouped))"
    unfolding tags e by (simp only: map_map [symmetric])
  have "mset (map ?id (sorted_items grouped)) = mset (map ?id grouped)"
    by (simp add: sorted_items_def)
  then have d2: "distinct (map ?id (sorted_items grouped)) \<longleftrightarrow> distinct (map ?id grouped)"
    by (rule mset_eq_imp_distinct_iff)
  have d3: "distinct (map ?id grouped)"
    if k: "distinct (map fst grouped)" and nd: "\<forall>((t, m), vids)\<in>set grouped. 0x2D \<notin> set t"
  proof -
    have "inj_on ?key_id (set (map fst grouped))"
    proof (rule inj_onI)
      fix x y
      assume x: "x \<in> set (map fst grouped)" and y: "y \<in> set (map fst grouped)"
        and q: "?key_id x = ?key_id y"
      obtain t m t' m' where xy: "x = (t, m)" "y = (t', m')" by (metis surj_pair)
      from nd x y xy have "0x2D \<notin> set t" "0x2D \<notin> set t'" by auto
      moreover from q xy have "section_id_of t m = section_id_of t' m'" by simp
      ultimately have "t = t' \<and> m = m'" by (rule section_id_of_inj)
      with xy show "x = y" by simp
    qed
    with k have "distinct (map ?key_id (map fst grouped))" by (simp only: distinct_map)
    moreover have "map ?key_id (map fst grouped) = map ?id grouped"
      by (simp add: case_prod_unfold)
    ultimately show ?thesis by (simp only:)
  qed
  from tags have len: "length (section_tags doc) = length grouped"
    by (simp add: sorted_items_def)
  from tags len d1 d2 d3
  show "section_tags doc =
       map (\<lambda>((t, m), vids). section_attributes (section_id_of t m)) (sorted_items grouped)
     \<and> length (section_tags doc) = length grouped
     \<and> (distinct (section_tags doc) \<longleftrightarrow> distinct (map ?id grouped))
     \<and> (distinct (map fst grouped) \<and> (\<forall>((t, m), vids)\<in>set grouped. 0x2D \<notin> set t) \<longrightarrow>
          distinct (section_tags doc))"
    by blast
qed

lemma two_groups_plain: "plain_grouping two_groups"
  by (simp add: plain_grouping_def html_plain_def two_groups_def twin_a_def twin_b_def
      clip_def lit_def)

theorem one_section_per_group_witness:
  "plain_grouping two_groups
   \<and> distinct (map fst two_groups)
   \<and> (\<exists>doc. render_html two_groups = Inr doc
        \<and> section_tags doc
            = [section_attributes (lit ''push-gpt-5''), section_attributes (lit ''stack-gpt-5'')]
        \<and> length (section_tags doc) = length two_groups
        \<and> distinct (section_tags doc))"
proof -
  have ne: "two_groups \<noteq> []" by (simp add: two_groups_def)
  then obtain doc where doc: "render_html two_groups = Inr doc"
    using render_lines_nonempty [of two_groups] by (auto simp: render_html_def)
  have s: "sorted_items two_groups =
      [((lit ''push'', lit ''gpt-5''), [twin_a, twin_b]), ((lit ''stack'', lit ''gpt-5''), [twin_a])]"
    by (simp add: sorted_items_def two_groups_def lit_def)
  have d: "distinct (map fst two_groups)" by (simp add: two_groups_def lit_def)
  have nd: "\<forall>((t, m), vids)\<in>set two_groups. 0x2D \<notin> set t"
    by (simp add: two_groups_def lit_def)
  from one_section_per_group [of two_groups doc] doc two_groups_plain d nd
  have t: "section_tags doc =
       map (\<lambda>((t, m), vids). section_attributes (section_id_of t m)) (sorted_items two_groups)"
    and l: "length (section_tags doc) = length two_groups"
    and dt: "distinct (section_tags doc)"
    by blast+
  from t have "section_tags doc =
      [section_attributes (lit ''push-gpt-5''), section_attributes (lit ''stack-gpt-5'')]"
    unfolding s by (simp add: section_id_of_def lit_def)
  with doc d l dt two_groups_plain show ?thesis by simp
qed


lemma colliding_records:
  "map_sum id (map (\<lambda>v. (task v, model v, path v)))
     (snd (find_videos colliding_tree project_root))
   = Inr [(lit ''a'', lit ''b-gpt-5'',
           lit ''static/videos/highlight-videos/x/a/b-gpt-5/run_1/y/sim.mp4''),
          (lit ''a-b'', lit ''gpt-5'',
           lit ''static/videos/highlight-videos/x/a-b/gpt-5/run_1/y/sim.mp4'')]"
proof -
  have i: "iter_num_of (lit ''run_1'') = Inr 1"
    by (simp add: iter_num_of_def ITER_RE_search_def is_decimal_ascii is_ascii_digit_def
        py_int_def decimal_ascii bind_err_def lit_def)
  have m1: "model_idx_of [lit ''x'', lit ''a'', lit ''b-gpt-5'', lit ''run_1'', lit ''y'',
      lit ''sim.mp4''] = Some 2"
    by (simp add: model_idx_of_def lit_def)
  have m2: "model_idx_of [lit ''x'', lit ''a-b'', lit ''gpt-5'', lit ''run_1'', lit ''y'',
      lit ''sim.mp4''] = Some 2"
    by (simp add: model_idx_of_def lit_def)
  have e: "dir_exists colliding_tree" by (simp add: colliding_tree_def)
  have c: "can_print colliding_tree
      (lit ''Searching for videos in '' @ str_path (videos_dir_of project_root))"
    by (rule can_print_project_root) (simp add: colliding_tree_def)
  have p1: "lit ''static/videos/highlight-videos/'' @ str_path (PurePath False
      [lit ''x'', lit ''a'', lit ''b-gpt-5'', lit ''run_1'', lit ''y'', lit ''sim.mp4''])
      = lit ''static/videos/highlight-videos/x/a/b-gpt-5/run_1/y/sim.mp4''"
    by (simp add: str_path_def lit_def)
  have p2: "lit ''static/videos/highlight-videos/'' @ str_path (PurePath False
      [lit ''x'', lit ''a-b'', lit ''gpt-5'', lit ''run_1'', lit ''y'', lit ''sim.mp4''])
      = lit ''static/videos/highlight-videos/x/a-b/gpt-5/run_1/y/sim.mp4''"
    by (simp add: str_path_def lit_def)
  show ?thesis
    by (simp add: find_videos_searching [OF e c])
       (simp add: colliding_tree_def video_of_below m1 m2 i getitem_def bind_err_def p1 p2)
qed

text \<open>
  Against claim C6 as stated: the Locator finds task \<open>a\<close> with model \<open>b-gpt-5\<close> and
  task \<open>a-b\<close> with model \<open>gpt-5\<close>; the grouping has these two pairs and the document
  two sections, both with the identifier \<open>a-b-gpt-5\<close>. And a task name that holds
  markup adds section tags: one group, but at least two tags in the document.
\<close>

theorem shared_section_id_counterexample:
  "map_sum id (map (\<lambda>v. (task v, model v))) (snd (find_videos colliding_tree project_root))
     = Inr [(lit ''a'', lit ''b-gpt-5''), (lit ''a-b'', lit ''gpt-5'')]
   \<and> bind_err (snd (find_videos colliding_tree project_root))
        (\<lambda>videos. map_sum id section_tags (render_html (group_by_task_model videos)))
     = Inr [section_attributes (lit ''a-b-gpt-5''), section_attributes (lit ''a-b-gpt-5'')]
   \<and> length markup_group = 1
   \<and> map_sum id (\<lambda>doc. 2 \<le> length (section_tags doc)) (render_html markup_group) = Inr True"
proof -
  let ?found = "snd (find_videos colliding_tree project_root)"
  from colliding_records obtain vs where vs: "?found = Inr vs"
    and recs: "map (\<lambda>v. (task v, model v, path v)) vs =
      [(lit ''a'', lit ''b-gpt-5'',
        lit ''static/videos/highlight-videos/x/a/b-gpt-5/run_1/y/sim.mp4''),
       (lit ''a-b'', lit ''gpt-5'',
        lit ''static/videos/highlight-videos/x/a-b/gpt-5/run_1/y/sim.mp4'')]"
    by (cases ?found) auto
  from recs obtain v1 v2 where l: "vs = [v1, v2]"
    and k1: "task v1 = lit ''a''" "model v1 = lit ''b-gpt-5''"
      "path v1 = lit ''static/videos/highlight-videos/x/a/b-gpt-5/run_1/y/sim.mp4''"
    and k2: "task v2 = lit ''a-b''" "model v2 = lit ''gpt-5''"
      "path v2 = lit ''static/videos/highlight-videos/x/a-b/gpt-5/run_1/y/sim.mp4''"
    by (auto simp: map_eq_Cons_conv)
  have g: "group_by_task_model vs =
      [((lit ''a'', lit ''b-gpt-5''), [v1]), ((lit ''a-b'', lit ''gpt-5''), [v2])]"
    by (simp add: group_by_task_model_def group_loop_def sort_and_cut_def l k1 k2 lit_def)
  have s: "sorted_items (group_by_task_model vs) = group_by_task_model vs"
    unfolding g by (simp add: sorted_items_def lit_def)
  have p: "plain_grouping (group_by_task_model vs)"
    unfolding g by (simp add: plain_grouping_def html_plain_def k1 k2 lit_def)
  from g have "group_by_task_model vs \<noteq> []" by simp
  then obtain doc where doc: "render_html (group_by_task_model vs) = Inr doc"
    using render_lines_nonempty [of "group_by_task_model vs"] by (auto simp: render_html_def)
  from section_tags_document [OF doc p]
  have t: "section_tags doc =
      [section_attributes (lit ''a-b-gpt-5''), section_attributes (lit ''a-b-gpt-5'')]"
    unfolding s unfolding g by (simp add: section_id_of_def lit_def)
  have keys: "map_sum id (map (\<lambda>v. (task v, model v))) ?found
     = Inr [(lit ''a'', lit ''b-gpt-5''), (lit ''a-b'', lit ''gpt-5'')]"
    using vs l k1 k2 by simp
  have "markup_group \<noteq> []" by (simp add: markup_group_def)
  then obtain md where md: "render_html markup_group = Inr md"
    using render_lines_nonempty [of markup_group] by (auto simp: render_html_def)
  have "((lit ''t<section x>'', lit ''gpt-5''), [twin_a]) \<in> set markup_group"
    by (simp add: markup_group_def)
  from section_open_in_document [OF md this]
  obtain pre post where "md = pre @ section_open (section_id_of (lit ''t<section x>'') (lit ''gpt-5'')) @ post"
    by blast
  moreover have "length (section_tags (section_open (section_id_of (lit ''t<section x>'') (lit ''gpt-5'')))) = 2"
    by (simp add: section_open_def section_id_of_def lit_def)
  ultimately have "2 \<le> length (section_tags md)"
    using section_tags_length_append [of pre "section_open (section_id_of (lit ''t<section x>'') (lit ''gpt-5'')) @ post"]
      section_tags_length_append [of "section_open (section_id_of (lit ''t<section x>'') (lit ''gpt-5''))" post]
    by simp
  with md have m2: "map_sum id (\<lambda>doc. 2 \<le> length (section_tags doc)) (render_html markup_group) = Inr True"
    by simp
  have m1: "length markup_group = 1" by (simp add: markup_group_def)
  from keys vs doc t m1 m2 show ?thesis by (simp add: bind_err_def)
qed

end
